theory Spec2Isabelle
  imports Main "HOL-Library.Word" "HOL-Library.Signed_Division" "HOL-Library.Multiset"
begin

section \<open>Data model\<close>

text \<open>
  The C sources are compiled for an LP64 target: \<open>uint64_t\<close> and \<open>size_t\<close> are 64-bit
  unsigned words whose arithmetic wraps around. The \<open>int\<close> counters that the code
  increments (\<open>num_items\<close>, the scan \<open>depth\<close>) are 32-bit words read as two's
  complement. The \<open>int\<close> flags (\<open>resize_enabled\<close>, \<open>speed_test\<close>, \<open>resize_needed\<close>,
  \<open>end_of_file\<close>) only ever receive the constants 0 and 1 and are tested against zero;
  they are integers. Allocation is taken to succeed.
\<close>

type_synonym u64 = "64 word"
type_synonym size_t = "64 word"
type_synonym cint = "32 word"

definition INVALID_KEY :: u64 where
  "INVALID_KEY = 0xFFFFFFFFFFFFFFFF"

definition INVALID_VALUE :: u64 where
  "INVALID_VALUE = 0xFFFFFFFFFFFFFFFF"

definition MAX_CHAIN_SIZE :: cint where
  "MAX_CHAIN_SIZE = 8"

definition MAX_TASK_POOL :: int where
  "MAX_TASK_POOL = 256"

definition INIT_NUM_BUCKETS :: int where
  "INIT_NUM_BUCKETS = 64"

definition INIT_NUM_LOCKS_RATIO :: int where
  "INIT_NUM_LOCKS_RATIO = 8"

definition DEFAULT_NUM_THREADS :: int where
  "DEFAULT_NUM_THREADS = 16"

definition FILE_CHUNK_SIZE :: nat where
  "FILE_CHUNK_SIZE = 32768"

text \<open>
  \<open>struct Item\<close>: a node of a bucket's linked list. The \<open>next\<close> pointer is the tail of
  the list that holds the node; a bucket's \<open>head\<close> pointer is the whole list, \<open>NULL\<close>
  the empty one.
\<close>

record Item =
  item_key :: u64
  item_value :: u64

type_synonym Bucket = "Item list"

text \<open>
  \<open>struct ChainedHashTable\<close> of the striped-lock variant. A sequential run takes a
  lock and releases it before the operation returns, so of the lock array only its
  size is kept.
\<close>

record ChainedHashTable =
  buckets :: "Bucket list"
  num_buckets :: size_t
  num_locks :: size_t
  num_items :: cint

text \<open>The process-wide flags of \<open>chained.h\<close>.\<close>

record globals =
  resize_enabled :: int
  speed_test :: int
  resize_needed :: int

text \<open>
  What C leaves undefined is an error value of the model: the two remainders whose
  divisor can be zero, and a read past the end of the bucket array.
\<close>

datatype error = HashModZero | LockModZero | BucketOutOfBounds | UsageExit

section \<open>Striped-lock variant (chained\_locked.c)\<close>

definition hash1 :: "u64 \<Rightarrow> size_t \<Rightarrow> error + size_t" where
  "hash1 key nb =
     (let key' = (key * 37) + 13
      in if nb = 0 then Inl HashModZero else Inr (key' mod nb))"

definition get_lock_idx :: "ChainedHashTable \<Rightarrow> size_t \<Rightarrow> error + size_t" where
  "get_lock_idx chained bucket_index =
     (if num_locks chained = 0 then Inl LockModZero
      else Inr (bucket_index mod num_locks chained))"

definition create_table :: "size_t \<Rightarrow> size_t \<Rightarrow> ChainedHashTable" where
  "create_table nb nl =
     \<lparr>buckets = replicate (unat nb) [], num_buckets = nb, num_locks = nl, num_items = 0\<rparr>"

text \<open>The scan of \<open>lookup\<close>: the value of the first node with the key, else what \<open>value\<close> held.\<close>

fun lookup_scan :: "u64 \<Rightarrow> Bucket \<Rightarrow> u64 \<Rightarrow> u64" where
  "lookup_scan key [] v = v"
| "lookup_scan key (node # rest) v =
     (if item_key node = key then item_value node else lookup_scan key rest v)"

definition lookup :: "ChainedHashTable \<Rightarrow> u64 \<Rightarrow> error + u64" where
  "lookup chained key =
     (if key = INVALID_KEY then Inr INVALID_VALUE
      else case hash1 key (num_buckets chained) of
        Inl e \<Rightarrow> Inl e
      | Inr bucket \<Rightarrow>
         (case get_lock_idx chained bucket of
            Inl e \<Rightarrow> Inl e
          | Inr lock_idx \<Rightarrow>
              if unat bucket < length (buckets chained)
              then Inr (lookup_scan key (buckets chained ! unat bucket) INVALID_VALUE)
              else Inl BucketOutOfBounds))"

text \<open>
  The scan of \<open>insert\<close>: it overwrites the value of the first node with the key and
  stops, counting in \<open>depth\<close> the nodes it passed. The result is \<open>succeeded\<close>, the
  final \<open>depth\<close> and the chain.
\<close>

fun insert_scan :: "u64 \<Rightarrow> u64 \<Rightarrow> Bucket \<Rightarrow> cint \<Rightarrow> bool \<times> cint \<times> Bucket" where
  "insert_scan key v [] depth = (False, depth, [])"
| "insert_scan key v (node # rest) depth =
     (if item_key node = key then (True, depth, node\<lparr>item_value := v\<rparr> # rest)
      else (case insert_scan key v rest (depth + 1) of
              (succeeded, depth', rest') \<Rightarrow> (succeeded, depth', node # rest')))"

text \<open>
  The block under \<open>if (added_node)\<close>: the metric counter, then the resize trigger with
  its read of \<open>resize_needed\<close> before the write.
\<close>

definition insert_added :: "globals \<Rightarrow> ChainedHashTable \<Rightarrow> cint \<Rightarrow> globals \<times> ChainedHashTable" where
  "insert_added g chained depth =
     (let chained' = (if speed_test g = 0
                      then chained\<lparr>num_items := num_items chained + 1\<rparr> else chained);
          g' = (if resize_enabled g \<noteq> 0 \<and> MAX_CHAIN_SIZE \<le>s depth
                then (let temp_resize = resize_needed g
                      in if temp_resize = 0 then g\<lparr>resize_needed := 1\<rparr> else g)
                else g)
      in (g', chained'))"

text \<open>
  \<open>insert\<close> returns nothing; \<open>insert_run\<close> is its body and also reports the locals
  \<open>added_node\<close> and \<open>depth\<close> as they stand when the function returns.
\<close>

record insert_result =
  res_globals :: globals
  res_table :: ChainedHashTable
  res_added_node :: bool
  res_depth :: cint

definition insert_run :: "globals \<Rightarrow> ChainedHashTable \<Rightarrow> u64 \<Rightarrow> u64 \<Rightarrow> error + insert_result" where
  "insert_run g chained key v =
     (if key = INVALID_KEY
      then Inr \<lparr>res_globals = g, res_table = chained, res_added_node = False, res_depth = 0\<rparr>
      else if v = INVALID_VALUE
      then Inr \<lparr>res_globals = g, res_table = chained, res_added_node = False, res_depth = 0\<rparr>
      else case hash1 key (num_buckets chained) of
        Inl e \<Rightarrow> Inl e
      | Inr bucket \<Rightarrow>
         (case get_lock_idx chained bucket of
            Inl e \<Rightarrow> Inl e
          | Inr lock_idx \<Rightarrow>
              if unat bucket < length (buckets chained)
              then (case insert_scan key v (buckets chained ! unat bucket) 0 of
                      (succeeded, depth, scanned) \<Rightarrow>
                        if succeeded
                        then Inr \<lparr>res_globals = g,
                                  res_table = chained\<lparr>buckets := (buckets chained)[unat bucket := scanned]\<rparr>,
                                  res_added_node = False, res_depth = depth\<rparr>
                        else (let add_item = \<lparr>item_key = key, item_value = v\<rparr>;
                                  linked = chained\<lparr>buckets := (buckets chained)
                                             [unat bucket := add_item # (buckets chained ! unat bucket)]\<rparr>
                              in case insert_added g linked depth of
                                   (g', chained') \<Rightarrow>
                                     Inr \<lparr>res_globals = g', res_table = chained',
                                          res_added_node = True, res_depth = depth\<rparr>))
              else Inl BucketOutOfBounds))"

definition insert_tbl :: "globals \<Rightarrow> ChainedHashTable \<Rightarrow> u64 \<Rightarrow> u64 \<Rightarrow> error + globals \<times> ChainedHashTable" where
  "insert_tbl g chained key v =
     (case insert_run g chained key v of
        Inl e \<Rightarrow> Inl e
      | Inr r \<Rightarrow> Inr (res_globals r, res_table r))"

definition resize_insert :: "ChainedHashTable \<Rightarrow> u64 \<Rightarrow> u64 \<Rightarrow> error + ChainedHashTable" where
  "resize_insert chained key v =
     (case hash1 key (num_buckets chained) of
        Inl e \<Rightarrow> Inl e
      | Inr bucket \<Rightarrow>
         (case get_lock_idx chained bucket of
            Inl e \<Rightarrow> Inl e
          | Inr lock_idx \<Rightarrow>
              if unat bucket < length (buckets chained)
              then (let add_item = \<lparr>item_key = key, item_value = v\<rparr>
                    in Inr (chained\<lparr>buckets := (buckets chained)
                              [unat bucket := add_item # (buckets chained ! unat bucket)]\<rparr>))
              else Inl BucketOutOfBounds))"

text \<open>The inner \<open>while\<close> of \<open>resize\<close>: one old chain, head to tail, into the next table.\<close>

fun rehash_chain :: "ChainedHashTable \<Rightarrow> Bucket \<Rightarrow> error + ChainedHashTable" where
  "rehash_chain next_chained [] = Inr next_chained"
| "rehash_chain next_chained (node # rest) =
     (case resize_insert next_chained (item_key node) (item_value node) of
        Inl e \<Rightarrow> Inl e
      | Inr next_chained' \<Rightarrow> rehash_chain next_chained' rest)"

text \<open>
  The \<open>for\<close> loop of \<open>resize\<close> over the old bucket indices, run by one thread in
  index order.
\<close>

fun rehash_buckets :: "ChainedHashTable \<Rightarrow> ChainedHashTable \<Rightarrow> nat list \<Rightarrow> error + ChainedHashTable" where
  "rehash_buckets curr_chained next_chained [] = Inr next_chained"
| "rehash_buckets curr_chained next_chained (i # is) =
     (if i < length (buckets curr_chained)
      then (case rehash_chain next_chained (buckets curr_chained ! i) of
              Inl e \<Rightarrow> Inl e
            | Inr next_chained' \<Rightarrow> rehash_buckets curr_chained next_chained' is)
      else Inl BucketOutOfBounds)"

definition resize :: "globals \<Rightarrow> ChainedHashTable \<Rightarrow> error + globals \<times> ChainedHashTable" where
  "resize g curr_chained =
     (let next_num_buckets = num_buckets curr_chained * 2;
          next_num_locks = num_locks curr_chained * 2;
          next_chained = (create_table next_num_buckets next_num_locks)
                           \<lparr>num_items := num_items curr_chained\<rparr>
      in case rehash_buckets curr_chained next_chained [0..<unat (num_buckets curr_chained)] of
           Inl e \<Rightarrow> Inl e
         | Inr next_chained' \<Rightarrow> Inr (g\<lparr>resize_needed := 0\<rparr>, next_chained'))"

section \<open>Lock-free variant (chained\_lock\_free.c)\<close>

text \<open>
  \<open>struct ChainedHashTable\<close> of the lock-free variant has no lock array. The model is
  of a run by one thread: between the snapshot of a bucket head and the atomic
  compare on it no other thread writes, so the compare sees the head that the
  snapshot saw. Heads are compared as chains.
\<close>

record LFHashTable =
  lf_buckets :: "Bucket list"
  lf_num_buckets :: size_t
  lf_num_items :: cint

definition hash1_lf :: "u64 \<Rightarrow> size_t \<Rightarrow> error + size_t" where
  "hash1_lf key nb =
     (let key' = (key * 37) + 13
      in if nb = 0 then Inl HashModZero else Inr (key' mod nb))"

definition create_table_lf :: "size_t \<Rightarrow> size_t \<Rightarrow> LFHashTable" where
  "create_table_lf nb nl =
     \<lparr>lf_buckets = replicate (unat nb) [], lf_num_buckets = nb, lf_num_items = 0\<rparr>"

definition lookup_lf :: "LFHashTable \<Rightarrow> u64 \<Rightarrow> error + u64" where
  "lookup_lf chained key =
     (if key = INVALID_KEY then Inr INVALID_VALUE
      else case hash1_lf key (lf_num_buckets chained) of
        Inl e \<Rightarrow> Inl e
      | Inr bucket \<Rightarrow>
          if unat bucket < length (lf_buckets chained)
          then Inr (lookup_scan key (lf_buckets chained ! unat bucket) INVALID_VALUE)
          else Inl BucketOutOfBounds)"

text \<open>
  The retry loop of the lock-free \<open>insert\<close> on one bucket head: snapshot, scan, then
  the atomic compare-and-capture. The result is the head, \<open>added_node\<close> and \<open>depth\<close>.
\<close>

function insert_retry_lf :: "u64 \<Rightarrow> u64 \<Rightarrow> Bucket \<Rightarrow> Bucket \<times> bool \<times> cint" where
  "insert_retry_lf key v head =
     (let expected = head
      in case insert_scan key v expected 0 of
           (succeeded, depth, scanned) \<Rightarrow>
             if succeeded then (scanned, False, depth)
             else (let add_item = \<lparr>item_key = key, item_value = v\<rparr> # expected;
                       old_head = head;
                       head' = (if head = expected then add_item else head)
                   in if old_head = expected then (head', True, depth)
                      else insert_retry_lf key v head'))"
  by pat_completeness auto
termination
  by (relation "{}") simp_all

definition insert_added_lf :: "globals \<Rightarrow> LFHashTable \<Rightarrow> cint \<Rightarrow> globals \<times> LFHashTable" where
  "insert_added_lf g chained depth =
     (let chained' = (if speed_test g = 0
                      then chained\<lparr>lf_num_items := lf_num_items chained + 1\<rparr> else chained);
          g' = (if resize_enabled g \<noteq> 0 \<and> MAX_CHAIN_SIZE \<le>s depth
                then (let temp_resize = resize_needed g
                      in if temp_resize = 0 then g\<lparr>resize_needed := 1\<rparr> else g)
                else g)
      in (g', chained'))"

record insert_result_lf =
  lf_res_globals :: globals
  lf_res_table :: LFHashTable
  lf_res_added_node :: bool
  lf_res_depth :: cint

definition insert_run_lf :: "globals \<Rightarrow> LFHashTable \<Rightarrow> u64 \<Rightarrow> u64 \<Rightarrow> error + insert_result_lf" where
  "insert_run_lf g chained key v =
     (if key = INVALID_KEY
      then Inr \<lparr>lf_res_globals = g, lf_res_table = chained, lf_res_added_node = False, lf_res_depth = 0\<rparr>
      else if v = INVALID_VALUE
      then Inr \<lparr>lf_res_globals = g, lf_res_table = chained, lf_res_added_node = False, lf_res_depth = 0\<rparr>
      else case hash1_lf key (lf_num_buckets chained) of
        Inl e \<Rightarrow> Inl e
      | Inr bucket \<Rightarrow>
          if unat bucket < length (lf_buckets chained)
          then (case insert_retry_lf key v (lf_buckets chained ! unat bucket) of
                  (head', added_node, depth) \<Rightarrow>
                    (let stored = chained\<lparr>lf_buckets := (lf_buckets chained)[unat bucket := head']\<rparr>
                     in if added_node
                        then (case insert_added_lf g stored depth of
                                (g', chained') \<Rightarrow>
                                  Inr \<lparr>lf_res_globals = g', lf_res_table = chained',
                                       lf_res_added_node = True, lf_res_depth = depth\<rparr>)
                        else Inr \<lparr>lf_res_globals = g, lf_res_table = stored,
                                  lf_res_added_node = False, lf_res_depth = depth\<rparr>))
          else Inl BucketOutOfBounds)"

definition insert_lf :: "globals \<Rightarrow> LFHashTable \<Rightarrow> u64 \<Rightarrow> u64 \<Rightarrow> error + globals \<times> LFHashTable" where
  "insert_lf g chained key v =
     (case insert_run_lf g chained key v of
        Inl e \<Rightarrow> Inl e
      | Inr r \<Rightarrow> Inr (lf_res_globals r, lf_res_table r))"

text \<open>The retry loop of the lock-free \<open>resize_insert\<close>: prepend by compare-and-capture.\<close>

function resize_retry_lf :: "Item \<Rightarrow> Bucket \<Rightarrow> Bucket" where
  "resize_retry_lf add_item head =
     (let expected = head;
          linked = add_item # expected;
          old_head = head;
          head' = (if head = expected then linked else head)
      in if old_head = expected then head' else resize_retry_lf add_item head')"
  by pat_completeness auto
termination
  by (relation "{}") simp_all

definition resize_insert_lf :: "LFHashTable \<Rightarrow> u64 \<Rightarrow> u64 \<Rightarrow> error + LFHashTable" where
  "resize_insert_lf chained key v =
     (case hash1_lf key (lf_num_buckets chained) of
        Inl e \<Rightarrow> Inl e
      | Inr bucket \<Rightarrow>
          if unat bucket < length (lf_buckets chained)
          then Inr (chained\<lparr>lf_buckets := (lf_buckets chained)
                      [unat bucket := resize_retry_lf \<lparr>item_key = key, item_value = v\<rparr>
                                        (lf_buckets chained ! unat bucket)]\<rparr>)
          else Inl BucketOutOfBounds)"

fun rehash_chain_lf :: "LFHashTable \<Rightarrow> Bucket \<Rightarrow> error + LFHashTable" where
  "rehash_chain_lf next_chained [] = Inr next_chained"
| "rehash_chain_lf next_chained (node # rest) =
     (case resize_insert_lf next_chained (item_key node) (item_value node) of
        Inl e \<Rightarrow> Inl e
      | Inr next_chained' \<Rightarrow> rehash_chain_lf next_chained' rest)"

fun rehash_buckets_lf :: "LFHashTable \<Rightarrow> LFHashTable \<Rightarrow> nat list \<Rightarrow> error + LFHashTable" where
  "rehash_buckets_lf curr_chained next_chained [] = Inr next_chained"
| "rehash_buckets_lf curr_chained next_chained (i # is) =
     (if i < length (lf_buckets curr_chained)
      then (case rehash_chain_lf next_chained (lf_buckets curr_chained ! i) of
              Inl e \<Rightarrow> Inl e
            | Inr next_chained' \<Rightarrow> rehash_buckets_lf curr_chained next_chained' is)
      else Inl BucketOutOfBounds)"

definition resize_lf :: "globals \<Rightarrow> LFHashTable \<Rightarrow> error + globals \<times> LFHashTable" where
  "resize_lf g curr_chained =
     (let next_num_buckets = lf_num_buckets curr_chained * 2;
          next_chained = (create_table_lf next_num_buckets 1)
                           \<lparr>lf_num_items := lf_num_items curr_chained\<rparr>
      in case rehash_buckets_lf curr_chained next_chained [0..<unat (lf_num_buckets curr_chained)] of
           Inl e \<Rightarrow> Inl e
         | Inr next_chained' \<Rightarrow> Inr (g\<lparr>resize_needed := 0\<rparr>, next_chained'))"

section \<open>The driver (main.c)\<close>

text \<open>
  The \<open>getopt\<close> loop of \<open>main\<close>. An option is what \<open>getopt\<close> returned together with
  what the branch reads from \<open>optarg\<close>: the string itself for \<open>-f\<close>, the value of
  \<open>atoi(optarg)\<close> for \<open>-b\<close> and \<open>-t\<close>. Any other option prints the usage line and exits.
\<close>

datatype cli_opt = Opt_f string | Opt_b int | Opt_t int | Opt_r | Opt_s | Opt_other

record cli_config =
  initial_buckets :: int
  num_threads :: int
  data_file :: string

fun main_opt :: "cli_opt \<Rightarrow> cli_config \<times> globals \<Rightarrow> error + cli_config \<times> globals" where
  "main_opt (Opt_f optarg) (cfg, g) = Inr (cfg\<lparr>data_file := optarg\<rparr>, g)"
| "main_opt (Opt_b n) (cfg, g) =
     (let cfg' = cfg\<lparr>initial_buckets := n\<rparr>
      in if initial_buckets cfg' = 0
         then Inr (cfg'\<lparr>initial_buckets := INIT_NUM_BUCKETS\<rparr>, g)
         else Inr (cfg', g))"
| "main_opt (Opt_t n) (cfg, g) =
     (let cfg' = cfg\<lparr>num_threads := n\<rparr>
      in if num_threads cfg' < 1
         then Inr (cfg'\<lparr>num_threads := DEFAULT_NUM_THREADS\<rparr>, g)
         else Inr (cfg', g))"
| "main_opt Opt_r (cfg, g) = Inr (cfg, g\<lparr>resize_enabled := 0\<rparr>)"
| "main_opt Opt_s (cfg, g) = Inr (cfg, g\<lparr>speed_test := 1\<rparr>)"
| "main_opt Opt_other (cfg, g) = Inl UsageExit"

fun main_getopt_loop :: "cli_opt list \<Rightarrow> cli_config \<times> globals \<Rightarrow> error + cli_config \<times> globals" where
  "main_getopt_loop [] s = Inr s"
| "main_getopt_loop (opt # opts) s =
     (case main_opt opt s of
        Inl e \<Rightarrow> Inl e
      | Inr s' \<Rightarrow> main_getopt_loop opts s')"

text \<open>The initialisers of \<open>main\<close>'s locals and of the flags of \<open>chained_locked.c\<close>.\<close>

definition main_defaults :: "cli_config \<times> globals" where
  "main_defaults =
     (\<lparr>initial_buckets = INIT_NUM_BUCKETS, num_threads = DEFAULT_NUM_THREADS,
       data_file = ''output.txt''\<rparr>,
      \<lparr>resize_enabled = 1, speed_test = 0, resize_needed = 0\<rparr>)"

text \<open>
  The call \<open>create_table(initial_buckets, initial_buckets / INIT_NUM_LOCKS_RATIO)\<close>: the
  division is C's \<open>int\<close> division, which truncates towards zero, and both arguments
  are converted to \<open>size_t\<close>, that is taken modulo \<open>2^64\<close>.
\<close>

definition main_create_table :: "cli_config \<Rightarrow> ChainedHashTable" where
  "main_create_table cfg =
     create_table (word_of_int (initial_buckets cfg))
       (word_of_int (initial_buckets cfg sdiv INIT_NUM_LOCKS_RATIO))"

text \<open>\<open>main\<close> from its first line to the table it creates (the data file is taken to open).\<close>

definition main_table :: "cli_opt list \<Rightarrow> error + globals \<times> ChainedHashTable" where
  "main_table opts =
     (case main_getopt_loop opts main_defaults of
        Inl e \<Rightarrow> Inl e
      | Inr (cfg, g) \<Rightarrow> Inr (g, main_create_table cfg))"

text \<open>
  The dispatch phase: the \<open>while (1)\<close> loop inside \<open>#pragma omp single\<close> and the \<open>if\<close>
  after it. The input file is its bytes and a position. \<open>fread\<close> returns the next
  \<open>FILE_CHUNK_SIZE\<close> bytes, or fewer at the end of the file. The tasks run while the loop
  goes on and may set \<open>resize_needed\<close>, so what the atomic read of \<open>resize_needed\<close>
  returns is an input: \<open>obs c\<close> is the value read when \<open>count\<close> is \<open>c\<close>. \<open>count\<close> goes
  from 0 to at most \<open>MAX_TASK_POOL - 1\<close> and is an integer. The state records the buffers
  handed to tasks and whether an \<open>fread\<close> returned 0.
\<close>

record dispatch_state =
  ds_pos :: nat
  ds_end_of_file :: int
  ds_count :: int
  ds_temp_resize_needed :: int
  ds_tasks :: "string list"
  ds_zero_read :: bool

definition fread_chunk :: "string \<Rightarrow> nat \<Rightarrow> string" where
  "fread_chunk content pos = take FILE_CHUNK_SIZE (drop pos content)"

text \<open>The \<open>for (i = bytes_read; i > 0; i--)\<close> search for the last newline of the buffer.\<close>

fun find_last_newline :: "string \<Rightarrow> nat \<Rightarrow> nat option" where
  "find_last_newline buffer 0 = None"
| "find_last_newline buffer (Suc i) =
     (if buffer ! i = CHR 0x0A then Some i else find_last_newline buffer i)"

text \<open>
  The newline alignment of a full chunk: the bytes up to and including its last newline
  are kept and the file position is moved back over the rest; a chunk that is not full,
  or has no newline, is kept whole.
\<close>

definition valid_bytes :: "string \<Rightarrow> nat" where
  "valid_bytes buffer =
     (let bytes_read = length buffer
      in if bytes_read = FILE_CHUNK_SIZE
         then (case find_last_newline buffer bytes_read of
                 Some i \<Rightarrow> i + 1
               | None \<Rightarrow> bytes_read)
         else bytes_read)"

text \<open>The state once the buffer is aligned, terminated and handed to a new task.\<close>

definition spawn_task :: "string \<Rightarrow> dispatch_state \<Rightarrow> dispatch_state" where
  "spawn_task buffer s =
     s\<lparr>ds_pos := ds_pos s + valid_bytes buffer,
       ds_tasks := ds_tasks s @ [take (valid_bytes buffer) buffer]\<rparr>"

function dispatch_loop :: "string \<Rightarrow> (int \<Rightarrow> int) \<Rightarrow> dispatch_state \<Rightarrow> dispatch_state" where
  "dispatch_loop content obs s =
     (let buffer = fread_chunk content (ds_pos s);
          bytes_read = length buffer
      in if bytes_read = 0 then s\<lparr>ds_end_of_file := 1, ds_zero_read := True\<rparr>
         else
           (let s1 = spawn_task buffer s
            in if ds_end_of_file s1 \<noteq> 0 then s1
               else
                 (let s2 = s1\<lparr>ds_count := ds_count s1 + 1\<rparr>
                  in if ds_count s2 \<ge> MAX_TASK_POOL - 1 then s2
                     else
                       (let s3 = s2\<lparr>ds_temp_resize_needed := obs (ds_count s2)\<rparr>
                        in if ds_temp_resize_needed s3 \<noteq> 0 then s3
                           else dispatch_loop content obs s3))))"
  by pat_completeness auto
termination
  by (relation "measure (\<lambda>(content, obs, s). nat (MAX_TASK_POOL - 1 - ds_count s))")
    (auto simp: spawn_task_def)

definition dispatch_phase :: "string \<Rightarrow> (int \<Rightarrow> int) \<Rightarrow> nat \<Rightarrow> int \<Rightarrow> dispatch_state" where
  "dispatch_phase content obs pos eof =
     (let s = dispatch_loop content obs
                \<lparr>ds_pos = pos, ds_end_of_file = eof, ds_count = 0, ds_temp_resize_needed = 0,
                 ds_tasks = [], ds_zero_read = False\<rparr>
      in if \<not> (ds_count s = MAX_TASK_POOL - 1) \<and> \<not> (ds_temp_resize_needed s \<noteq> 0)
         then s\<lparr>ds_end_of_file := 1\<rparr>
         else s)"

section \<open>Invariants and specification-level notions\<close>

definition table_ok :: "ChainedHashTable \<Rightarrow> bool" where
  "table_ok t \<longleftrightarrow>
     length (buckets t) = unat (num_buckets t) \<and> num_buckets t \<noteq> 0 \<and> num_locks t \<noteq> 0"

definition uniqueness :: "ChainedHashTable \<Rightarrow> bool" where
  "uniqueness t \<longleftrightarrow> list_all (\<lambda>chain. distinct (map item_key chain)) (buckets t)"

definition placement :: "ChainedHashTable \<Rightarrow> bool" where
  "placement t \<longleftrightarrow>
     list_all (\<lambda>(b, chain). list_all (\<lambda>node. hash1 (item_key node) (num_buckets t) = Inr (of_nat b)) chain)
       (enumerate 0 (buckets t))"

definition all_items :: "ChainedHashTable \<Rightarrow> Item list" where
  "all_items t = concat (buckets t)"

definition bucket_of :: "ChainedHashTable \<Rightarrow> u64 \<Rightarrow> nat" where
  "bucket_of t k = unat ((k * 37 + 13) mod num_buckets t)"

text \<open>The chain that insert leaves in the bucket of its key.\<close>

definition chain_after :: "u64 \<Rightarrow> u64 \<Rightarrow> Bucket \<Rightarrow> Bucket" where
  "chain_after k v chain =
     (if k \<in> item_key ` set chain then snd (snd (insert_scan k v chain 0))
      else \<lparr>item_key = k, item_value = v\<rparr> # chain)"

text \<open>
  A sequence of inserts on one table, each given as its key and value, run one after
  the other; \<open>most_recent ops k\<close> is the value of the last insert of the sequence with
  key \<open>k\<close>, if there is one.
\<close>

fun insert_all :: "globals \<Rightarrow> ChainedHashTable \<Rightarrow> (u64 \<times> u64) list \<Rightarrow> error + globals \<times> ChainedHashTable" where
  "insert_all g t [] = Inr (g, t)"
| "insert_all g t ((k, v) # ops) =
     (case insert_tbl g t k v of
        Inl e \<Rightarrow> Inl e
      | Inr (g', t') \<Rightarrow> insert_all g' t' ops)"

fun insert_all_lf :: "globals \<Rightarrow> LFHashTable \<Rightarrow> (u64 \<times> u64) list \<Rightarrow> error + globals \<times> LFHashTable" where
  "insert_all_lf g t [] = Inr (g, t)"
| "insert_all_lf g t ((k, v) # ops) =
     (case insert_lf g t k v of
        Inl e \<Rightarrow> Inl e
      | Inr (g', t') \<Rightarrow> insert_all_lf g' t' ops)"

fun most_recent :: "(u64 \<times> u64) list \<Rightarrow> u64 \<Rightarrow> u64 option" where
  "most_recent [] k = None"
| "most_recent ((k', v) # ops) k =
     (case most_recent ops k of
        Some w \<Rightarrow> Some w
      | None \<Rightarrow> if k' = k then Some v else None)"

definition valid_ops :: "(u64 \<times> u64) list \<Rightarrow> bool" where
  "valid_ops ops \<longleftrightarrow> list_all (\<lambda>(k, v). k \<noteq> INVALID_KEY \<and> v \<noteq> INVALID_VALUE) ops"

text \<open>
  The lock-free table seen as a striped table with a single lock, and a striped table
  with its lock count dropped. They carry facts from one variant to the other.
\<close>

definition striped_of :: "LFHashTable \<Rightarrow> ChainedHashTable" where
  "striped_of t =
     \<lparr>buckets = lf_buckets t, num_buckets = lf_num_buckets t, num_locks = 1,
      num_items = lf_num_items t\<rparr>"

definition lf_of :: "ChainedHashTable \<Rightarrow> LFHashTable" where
  "lf_of t =
     \<lparr>lf_buckets = buckets t, lf_num_buckets = num_buckets t, lf_num_items = num_items t\<rparr>"

definition res_lf_of :: "insert_result \<Rightarrow> insert_result_lf" where
  "res_lf_of r =
     \<lparr>lf_res_globals = res_globals r, lf_res_table = lf_of (res_table r),
      lf_res_added_node = res_added_node r, lf_res_depth = res_depth r\<rparr>"

definition table_ok_lf :: "LFHashTable \<Rightarrow> bool" where
  "table_ok_lf t \<longleftrightarrow> length (lf_buckets t) = unat (lf_num_buckets t) \<and> lf_num_buckets t \<noteq> 0"

definition uniqueness_lf :: "LFHashTable \<Rightarrow> bool" where
  "uniqueness_lf t \<longleftrightarrow> list_all (\<lambda>chain. distinct (map item_key chain)) (lf_buckets t)"

definition placement_lf :: "LFHashTable \<Rightarrow> bool" where
  "placement_lf t \<longleftrightarrow>
     list_all (\<lambda>(b, chain). list_all (\<lambda>node. hash1_lf (item_key node) (lf_num_buckets t) = Inr (of_nat b)) chain)
       (enumerate 0 (lf_buckets t))"

definition all_items_lf :: "LFHashTable \<Rightarrow> Item list" where
  "all_items_lf t = concat (lf_buckets t)"

definition bucket_of_lf :: "LFHashTable \<Rightarrow> u64 \<Rightarrow> nat" where
  "bucket_of_lf t k = unat ((k * 37 + 13) mod lf_num_buckets t)"

text \<open>
  How the dispatch loop can end when it starts with \<open>end_of_file\<close> and
  \<open>temp_resize_needed\<close> at 0: on a read of zero bytes, with the flag set and the input
  used up, or else with the flag still 0 and either the pool full or \<open>resize_needed\<close>
  seen. The number of tasks is \<open>count\<close> either way.
\<close>

definition loop_exit :: "string \<Rightarrow> dispatch_state \<Rightarrow> bool" where
  "loop_exit content r \<longleftrightarrow>
     int (length (ds_tasks r)) = ds_count r \<and>
     (if ds_zero_read r
      then ds_end_of_file r = 1 \<and> ds_count r < MAX_TASK_POOL - 1 \<and>
           ds_temp_resize_needed r = 0 \<and> length content \<le> ds_pos r
      else ds_end_of_file r = 0 \<and>
           (ds_count r = MAX_TASK_POOL - 1 \<or> ds_temp_resize_needed r \<noteq> 0))"

section \<open>Striped-lock variant: scans, lookup and insert\<close>

lemma insert_scan_lookup:
  "insert_scan k v xs d = (s, d', xs') \<Longrightarrow>
   lookup_scan k' xs' dflt = (if k' = k \<and> s then v else lookup_scan k' xs dflt)"
  by (induction xs arbitrary: d s d' xs') (auto split: if_splits prod.splits)

lemma insert_scan_keys:
  "insert_scan k v xs d = (s, d', xs') \<Longrightarrow> map item_key xs' = map item_key xs"
  by (induction xs arbitrary: d s d' xs') (auto split: if_splits prod.splits)

lemma insert_scan_found:
  "insert_scan k v xs d = (s, d', xs') \<Longrightarrow> s \<longleftrightarrow> k \<in> item_key ` set xs"
  by (induction xs arbitrary: d s d' xs') (auto split: if_splits prod.splits)

lemma insert_scan_absent:
  "k \<notin> item_key ` set xs \<Longrightarrow> insert_scan k v xs d = (False, d + of_nat (length xs), xs)"
  by (induction xs arbitrary: d) (auto simp: algebra_simps)

lemma insert_scan_present:
  "k \<in> item_key ` set xs \<Longrightarrow> fst (insert_scan k v xs d)"
  using insert_scan_found [of k v xs d] by (cases "insert_scan k v xs d") auto

lemma hash1_Inr:
  "nb \<noteq> 0 \<Longrightarrow> hash1 k nb = Inr ((k * 37 + 13) mod nb)"
  by (simp add: hash1_def)

lemma hash1_bound:
  "hash1 k nb = Inr b \<Longrightarrow> unat b < unat nb"
  by (auto simp: hash1_def Let_def unat_mod_distrib unat_gt_0 split: if_splits)

lemma placement_iff:
  "placement t \<longleftrightarrow>
     (\<forall>b<length (buckets t). \<forall>node\<in>set (buckets t ! b).
        hash1 (item_key node) (num_buckets t) = Inr (of_nat b))"
  by (simp add: placement_def list_all_length nth_enumerate_eq all_set_conv_all_nth)

lemma uniqueness_iff:
  "uniqueness t \<longleftrightarrow> (\<forall>b<length (buckets t). distinct (map item_key (buckets t ! b)))"
  by (simp add: uniqueness_def list_all_length)

lemma lookup_scan_append:
  "lookup_scan k (xs @ ys) d =
     (if k \<in> item_key ` set xs then lookup_scan k xs d else lookup_scan k ys d)"
  by (induction xs) auto

lemma lookup_scan_absent:
  "k \<notin> item_key ` set xs \<Longrightarrow> lookup_scan k xs d = d"
  by (induction xs) auto

lemma lookup_scan_member:
  "distinct (map item_key xs) \<Longrightarrow> node \<in> set xs \<Longrightarrow>
   lookup_scan (item_key node) xs d = item_value node"
  by (induction xs) auto

lemma lookup_scan_set_cong:
  assumes "distinct (map item_key xs)" "distinct (map item_key ys)" "set xs = set ys"
  shows "lookup_scan k xs d = lookup_scan k ys d"
proof (cases "k \<in> item_key ` set xs")
  case True
  then obtain node where n: "node \<in> set xs" "item_key node = k" by auto
  with assms have "lookup_scan (item_key node) xs d = item_value node"
    "lookup_scan (item_key node) ys d = item_value node"
    by (auto intro: lookup_scan_member)
  with n show ?thesis by simp
next
  case False
  with assms show ?thesis by (simp add: lookup_scan_absent)
qed

lemma lookup_all_items:
  assumes ok: "table_ok t" and pl: "placement t" and k: "k \<noteq> INVALID_KEY"
  shows "lookup t k = Inr (lookup_scan k (all_items t) INVALID_VALUE)"
proof -
  let ?b = "(k * 37 + 13) mod num_buckets t"
  let ?bs = "buckets t"
  from ok have h: "hash1 k (num_buckets t) = Inr ?b" by (simp add: table_ok_def hash1_Inr)
  from hash1_bound [OF h] ok have lt: "unat ?b < length ?bs" by (simp add: table_ok_def)
  have split: "?bs = take (unat ?b) ?bs @ (?bs ! unat ?b) # drop (Suc (unat ?b)) ?bs"
    using lt by (rule id_take_nth_drop)
  have other: "k \<notin> item_key ` set (?bs ! i)" if "i < length ?bs" "i \<noteq> unat ?b" for i
  proof
    assume "k \<in> item_key ` set (?bs ! i)"
    then obtain node where "node \<in> set (?bs ! i)" "item_key node = k" by auto
    with pl that have "hash1 k (num_buckets t) = Inr (of_nat i)" by (auto simp: placement_iff)
    with h have "?b = of_nat i" by simp
    then have "unat ?b = unat (of_nat i :: size_t)" by simp
    moreover from that ok have "i < 2 ^ 64"
      using unsigned_less [of "num_buckets t", where 'a = nat] by (simp add: table_ok_def)
    ultimately show False using that by (simp add: unat_of_nat)
  qed
  have front: "k \<notin> item_key ` set (concat (take (unat ?b) ?bs))"
  proof
    assume "k \<in> item_key ` set (concat (take (unat ?b) ?bs))"
    then obtain c where "c \<in> set (take (unat ?b) ?bs)" "k \<in> item_key ` set c" by auto
    then obtain i where "i < unat ?b" "i < length ?bs" "c = ?bs ! i"
      by (auto simp: in_set_conv_nth)
    with other [of i] \<open>k \<in> item_key ` set c\<close> show False by simp
  qed
  have rear: "k \<notin> item_key ` set (concat (drop (Suc (unat ?b)) ?bs))"
  proof
    assume "k \<in> item_key ` set (concat (drop (Suc (unat ?b)) ?bs))"
    then obtain c where "c \<in> set (drop (Suc (unat ?b)) ?bs)" "k \<in> item_key ` set c" by auto
    then obtain i where "i < length ?bs - Suc (unat ?b)" "c = ?bs ! (Suc (unat ?b) + i)"
      by (auto simp: in_set_conv_nth)
    with other [of "Suc (unat ?b) + i"] \<open>k \<in> item_key ` set c\<close> show False by simp
  qed
  have "lookup_scan k (concat ?bs) INVALID_VALUE = lookup_scan k (?bs ! unat ?b) INVALID_VALUE"
    apply (subst split)
    apply (simp only: concat_append concat.simps lookup_scan_append)
    using front rear by (simp add: lookup_scan_absent)
  moreover have "lookup t k = Inr (lookup_scan k (?bs ! unat ?b) INVALID_VALUE)"
    using k h lt ok by (simp add: lookup_def get_lock_idx_def table_ok_def)
  ultimately show ?thesis by (simp add: all_items_def)
qed


lemma bucket_of_less: "table_ok t \<Longrightarrow> bucket_of t k < length (buckets t)"
  using hash1_bound [of k "num_buckets t"]
  by (simp add: bucket_of_def table_ok_def hash1_Inr)

lemma lookup_eq:
  "table_ok t \<Longrightarrow> k \<noteq> INVALID_KEY \<Longrightarrow>
   lookup t k = Inr (lookup_scan k (buckets t ! bucket_of t k) INVALID_VALUE)"
  using bucket_of_less [of t k]
  by (simp add: lookup_def get_lock_idx_def table_ok_def hash1_Inr bucket_of_def)

lemma lookup_invalid: "lookup t INVALID_KEY = Inr INVALID_VALUE"
  by (simp add: lookup_def)

lemma insert_run_eq:
  assumes "table_ok t" "k \<noteq> INVALID_KEY" "v \<noteq> INVALID_VALUE"
  shows "insert_run g t k v =
    (case insert_scan k v (buckets t ! bucket_of t k) 0 of
       (succeeded, depth, scanned) \<Rightarrow>
         if succeeded
         then Inr \<lparr>res_globals = g,
                   res_table = t\<lparr>buckets := (buckets t)[bucket_of t k := scanned]\<rparr>,
                   res_added_node = False, res_depth = depth\<rparr>
         else Inr \<lparr>res_globals = fst (insert_added g (t\<lparr>buckets := (buckets t)
                        [bucket_of t k := \<lparr>item_key = k, item_value = v\<rparr> # (buckets t ! bucket_of t k)]\<rparr>) depth),
                   res_table = snd (insert_added g (t\<lparr>buckets := (buckets t)
                        [bucket_of t k := \<lparr>item_key = k, item_value = v\<rparr> # (buckets t ! bucket_of t k)]\<rparr>) depth),
                   res_added_node = True, res_depth = depth\<rparr>)"
  using assms bucket_of_less [of t k]
  by (simp add: insert_run_def get_lock_idx_def table_ok_def hash1_Inr bucket_of_def Let_def
      split: prod.splits)

lemma insert_added_buckets:
  "buckets (snd (insert_added g t d)) = buckets t \<and>
   num_buckets (snd (insert_added g t d)) = num_buckets t \<and>
   num_locks (snd (insert_added g t d)) = num_locks t"
  by (simp add: insert_added_def Let_def)

lemma insert_run_table:
  assumes "table_ok t" "k \<noteq> INVALID_KEY" "v \<noteq> INVALID_VALUE"
  shows "\<exists>r. insert_run g t k v = Inr r \<and>
           buckets (res_table r) =
             (buckets t)[bucket_of t k := chain_after k v (buckets t ! bucket_of t k)] \<and>
           num_buckets (res_table r) = num_buckets t \<and>
           num_locks (res_table r) = num_locks t \<and>
           res_added_node r = (k \<notin> item_key ` set (buckets t ! bucket_of t k))"
proof (cases "k \<in> item_key ` set (buckets t ! bucket_of t k)")
  case True
  from insert_scan_present [OF this, of v 0] show ?thesis
    using True by (auto simp: insert_run_eq [OF assms] chain_after_def split: prod.splits)
next
  case False
  then show ?thesis
    by (simp add: insert_run_eq [OF assms] chain_after_def insert_scan_absent insert_added_buckets)
qed

lemma chain_after_lookup:
  "lookup_scan k' (chain_after k v chain) d = (if k' = k then v else lookup_scan k' chain d)"
proof (cases "k \<in> item_key ` set chain")
  case True
  obtain s d' c where sc: "insert_scan k v chain 0 = (s, d', c)" by (cases "insert_scan k v chain 0")
  with insert_scan_found [OF sc] True have "s" by simp
  with insert_scan_lookup [OF sc, of k' d] sc True show ?thesis by (simp add: chain_after_def)
next
  case False
  then show ?thesis by (simp add: chain_after_def)
qed

lemma chain_after_keys:
  "set (map item_key (chain_after k v chain)) = insert k (set (map item_key chain))"
proof (cases "k \<in> item_key ` set chain")
  case True
  obtain s d' c where sc: "insert_scan k v chain 0 = (s, d', c)" by (cases "insert_scan k v chain 0")
  from insert_scan_keys [OF sc] sc True show ?thesis by (auto simp: chain_after_def)
next
  case False
  then show ?thesis by (simp add: chain_after_def)
qed

lemma chain_after_distinct:
  "distinct (map item_key chain) \<Longrightarrow> distinct (map item_key (chain_after k v chain))"
proof (cases "k \<in> item_key ` set chain")
  case True
  assume d: "distinct (map item_key chain)"
  obtain s d' c where sc: "insert_scan k v chain 0 = (s, d', c)" by (cases "insert_scan k v chain 0")
  from insert_scan_keys [OF sc] sc True d show ?thesis by (simp add: chain_after_def)
next
  case False
  assume "distinct (map item_key chain)"
  with False show ?thesis by (simp add: chain_after_def)
qed

lemma insert_run_lookup:
  assumes "table_ok t" "k \<noteq> INVALID_KEY" "v \<noteq> INVALID_VALUE"
  shows "\<exists>r. insert_run g t k v = Inr r \<and> table_ok (res_table r) \<and>
           (\<forall>k'. lookup (res_table r) k' = (if k' = k then Inr v else lookup t k'))"
proof -
  from insert_run_table [OF assms, of g] obtain r where r: "insert_run g t k v = Inr r"
    and bs: "buckets (res_table r) =
             (buckets t)[bucket_of t k := chain_after k v (buckets t ! bucket_of t k)]"
    and nb: "num_buckets (res_table r) = num_buckets t"
    and nl: "num_locks (res_table r) = num_locks t" by blast
  from assms(1) bs nb nl have ok: "table_ok (res_table r)" by (simp add: table_ok_def)
  have "lookup (res_table r) k' = (if k' = k then Inr v else lookup t k')" for k'
  proof (cases "k' = INVALID_KEY")
    case True
    with assms(2) show ?thesis by (simp add: lookup_invalid)
  next
    case False
    have bo: "bucket_of (res_table r) k' = bucket_of t k'" by (simp add: bucket_of_def nb)
    show ?thesis
      using bucket_of_less [OF assms(1), of k] bucket_of_less [OF assms(1), of k']
      by (cases "bucket_of t k' = bucket_of t k")
         (auto simp: lookup_eq [OF ok False] lookup_eq [OF assms(1) False] bo bs chain_after_lookup)
  qed
  with r ok show ?thesis by blast
qed


lemma create_table_ok: "nb \<noteq> 0 \<Longrightarrow> nl \<noteq> 0 \<Longrightarrow> table_ok (create_table nb nl)"
  by (simp add: table_ok_def create_table_def)

lemma create_table_lookup:
  assumes "nb \<noteq> 0" "nl \<noteq> 0"
  shows "lookup (create_table nb nl) k = Inr INVALID_VALUE"
proof (cases "k = INVALID_KEY")
  case True
  then show ?thesis by (simp add: lookup_invalid)
next
  case False
  from bucket_of_less [OF create_table_ok [OF assms], of k]
  show ?thesis
    by (simp add: lookup_eq [OF create_table_ok [OF assms] False]) (simp add: create_table_def)
qed

lemma insert_tbl_lookup:
  assumes "table_ok t" "k \<noteq> INVALID_KEY" "v \<noteq> INVALID_VALUE"
  shows "\<exists>g' t'. insert_tbl g t k v = Inr (g', t') \<and> table_ok t' \<and>
           (\<forall>k'. lookup t' k' = (if k' = k then Inr v else lookup t k'))"
  using insert_run_lookup [OF assms, of g] by (auto simp: insert_tbl_def)

lemma insert_all_lookup:
  assumes "table_ok t" "valid_ops ops"
  shows "\<exists>g' t'. insert_all g t ops = Inr (g', t') \<and> table_ok t' \<and>
           (\<forall>k. lookup t' k = (case most_recent ops k of Some v \<Rightarrow> Inr v | None \<Rightarrow> lookup t k))"
  using assms
proof (induction ops arbitrary: g t)
  case Nil
  then show ?case by simp
next
  case (Cons op ops)
  obtain k v where op: "op = (k, v)" by (cases op)
  with Cons.prems have kv: "k \<noteq> INVALID_KEY" "v \<noteq> INVALID_VALUE" and rest: "valid_ops ops"
    by (simp_all add: valid_ops_def)
  from insert_tbl_lookup [OF Cons.prems(1) kv, of g] obtain g1 t1 where
    step: "insert_tbl g t k v = Inr (g1, t1)" and ok1: "table_ok t1"
    and l1: "\<And>k'. lookup t1 k' = (if k' = k then Inr v else lookup t k')" by blast
  from Cons.IH [OF ok1 rest, of g1] obtain g' t' where
    run: "insert_all g1 t1 ops = Inr (g', t')" and ok': "table_ok t'"
    and l': "\<And>k'. lookup t' k' = (case most_recent ops k' of Some v \<Rightarrow> Inr v | None \<Rightarrow> lookup t1 k')"
    by blast
  have "lookup t' k' = (case most_recent (op # ops) k' of Some v \<Rightarrow> Inr v | None \<Rightarrow> lookup t k')" for k'
    by (simp add: l' l1 op split: option.splits)
  with step run ok' op show ?case by simp
qed

section \<open>Striped-lock variant: resize\<close>

lemma mset_concat_update:
  "b < length bs \<Longrightarrow> mset (concat (bs[b := x # bs ! b])) = add_mset x (mset (concat bs))"
proof (induction bs arbitrary: b)
  case Nil
  then show ?case by simp
next
  case (Cons c bs)
  then show ?case by (cases b) simp_all
qed

lemma resize_insert_ok:
  assumes ok: "table_ok n" and pl: "placement n"
  shows "\<exists>n'. resize_insert n k v = Inr n' \<and> table_ok n' \<and> placement n' \<and>
           mset (all_items n') = add_mset \<lparr>item_key = k, item_value = v\<rparr> (mset (all_items n)) \<and>
           num_buckets n' = num_buckets n \<and> num_locks n' = num_locks n \<and>
           num_items n' = num_items n"
proof -
  let ?b = "bucket_of n k"
  let ?n' = "n\<lparr>buckets := (buckets n)[?b := \<lparr>item_key = k, item_value = v\<rparr> # (buckets n ! ?b)]\<rparr>"
  from ok have h: "hash1 k (num_buckets n) = Inr ((k * 37 + 13) mod num_buckets n)"
    by (simp add: table_ok_def hash1_Inr)
  have lt: "?b < length (buckets n)" using ok by (rule bucket_of_less)
  have run: "resize_insert n k v = Inr ?n'"
    using ok lt h by (simp add: resize_insert_def get_lock_idx_def table_ok_def bucket_of_def)
  have ok': "table_ok ?n'" using ok by (simp add: table_ok_def)
  have pl': "placement ?n'"
    unfolding placement_iff
  proof (intro allI impI ballI)
    fix b node
    assume b: "b < length (buckets ?n')" and node: "node \<in> set (buckets ?n' ! b)"
    show "hash1 (item_key node) (num_buckets ?n') = Inr (of_nat b)"
    proof (cases "b = ?b")
      case True
      with node lt have "node = \<lparr>item_key = k, item_value = v\<rparr> \<or> node \<in> set (buckets n ! b)"
        by auto
      then show ?thesis
      proof
        assume "node = \<lparr>item_key = k, item_value = v\<rparr>"
        with h True show ?thesis by (simp add: bucket_of_def)
      next
        assume "node \<in> set (buckets n ! b)"
        with pl b show ?thesis by (simp add: placement_iff)
      qed
    next
      case False
      with node b pl show ?thesis by (simp add: placement_iff)
    qed
  qed
  have ms: "mset (all_items ?n') = add_mset \<lparr>item_key = k, item_value = v\<rparr> (mset (all_items n))"
    using lt by (simp add: all_items_def mset_concat_update)
  from run ok' pl' ms show ?thesis by simp
qed

lemma rehash_chain_ok:
  assumes "table_ok n" "placement n"
  shows "\<exists>n'. rehash_chain n chain = Inr n' \<and> table_ok n' \<and> placement n' \<and>
           mset (all_items n') = mset chain + mset (all_items n) \<and>
           num_buckets n' = num_buckets n \<and> num_locks n' = num_locks n \<and>
           num_items n' = num_items n"
  using assms
proof (induction chain arbitrary: n)
  case Nil
  then show ?case by simp
next
  case (Cons node rest)
  from resize_insert_ok [OF Cons.prems, of "item_key node" "item_value node"]
  obtain n1 where s: "resize_insert n (item_key node) (item_value node) = Inr n1"
    and ok1: "table_ok n1" and pl1: "placement n1"
    and m1: "mset (all_items n1) = add_mset node (mset (all_items n))"
    and f1: "num_buckets n1 = num_buckets n" "num_locks n1 = num_locks n" "num_items n1 = num_items n"
    by auto
  from Cons.IH [OF ok1 pl1] obtain n' where r: "rehash_chain n1 rest = Inr n'"
    and ok': "table_ok n'" and pl': "placement n'"
    and m': "mset (all_items n') = mset rest + mset (all_items n1)"
    and f': "num_buckets n' = num_buckets n1" "num_locks n' = num_locks n1" "num_items n' = num_items n1"
    by blast
  from s r ok' pl' m' m1 f1 f' show ?case by simp
qed

lemma rehash_buckets_ok:
  assumes "table_ok n" "placement n" "\<forall>i\<in>set idxs. i < length (buckets c)"
  shows "\<exists>n'. rehash_buckets c n idxs = Inr n' \<and> table_ok n' \<and> placement n' \<and>
           mset (all_items n') = mset (concat (map (\<lambda>i. buckets c ! i) idxs)) + mset (all_items n) \<and>
           num_buckets n' = num_buckets n \<and> num_locks n' = num_locks n \<and>
           num_items n' = num_items n"
  using assms
proof (induction idxs arbitrary: n)
  case Nil
  then show ?case by simp
next
  case (Cons i idxs)
  from Cons.prems(3) have i: "i < length (buckets c)" and rest: "\<forall>i\<in>set idxs. i < length (buckets c)"
    by simp_all
  from rehash_chain_ok [OF Cons.prems(1,2), of "buckets c ! i"]
  obtain n1 where s: "rehash_chain n (buckets c ! i) = Inr n1"
    and ok1: "table_ok n1" and pl1: "placement n1"
    and m1: "mset (all_items n1) = mset (buckets c ! i) + mset (all_items n)"
    and f1: "num_buckets n1 = num_buckets n" "num_locks n1 = num_locks n" "num_items n1 = num_items n"
    by blast
  from Cons.IH [OF ok1 pl1 rest] obtain n' where r: "rehash_buckets c n1 idxs = Inr n'"
    and ok': "table_ok n'" and pl': "placement n'"
    and m': "mset (all_items n') = mset (concat (map (\<lambda>i. buckets c ! i) idxs)) + mset (all_items n1)"
    and f': "num_buckets n' = num_buckets n1" "num_locks n' = num_locks n1" "num_items n' = num_items n1"
    by blast
  from i s r ok' pl' m' m1 f1 f' show ?case by simp
qed

lemma create_table_placement: "placement (create_table nb nl)"
  by (simp add: placement_iff create_table_def)

lemma resize_ok:
  assumes ok: "table_ok t" and nb2: "num_buckets t * 2 \<noteq> 0" and nl2: "num_locks t * 2 \<noteq> 0"
  shows "\<exists>t'. resize g t = Inr (g\<lparr>resize_needed := 0\<rparr>, t') \<and> table_ok t' \<and> placement t' \<and>
           mset (all_items t') = mset (all_items t) \<and>
           num_buckets t' = num_buckets t * 2 \<and> num_locks t' = num_locks t * 2 \<and>
           num_items t' = num_items t"
proof -
  let ?n = "(create_table (num_buckets t * 2) (num_locks t * 2))\<lparr>num_items := num_items t\<rparr>"
  have okn: "table_ok ?n" using nb2 nl2 by (simp add: table_ok_def create_table_def)
  have pln: "placement ?n" by (simp add: placement_iff create_table_def)
  have itn: "all_items ?n = []" by (simp add: all_items_def create_table_def)
  have idx: "\<forall>i\<in>set [0..<unat (num_buckets t)]. i < length (buckets t)"
    using ok by (simp add: table_ok_def)
  from rehash_buckets_ok [OF okn pln idx] obtain t' where
    r: "rehash_buckets t ?n [0..<unat (num_buckets t)] = Inr t'"
    and ok': "table_ok t'" and pl': "placement t'"
    and m: "mset (all_items t') =
              mset (concat (map (\<lambda>i. buckets t ! i) [0..<unat (num_buckets t)])) + mset (all_items ?n)"
    and f: "num_buckets t' = num_buckets ?n" "num_locks t' = num_locks ?n" "num_items t' = num_items ?n"
    by blast
  have "map (\<lambda>i. buckets t ! i) [0..<unat (num_buckets t)] = buckets t"
    using ok map_nth [of "buckets t"] by (simp add: table_ok_def)
  with m itn have m': "mset (all_items t') = mset (all_items t)" by (simp add: all_items_def)
  from r have "resize g t = Inr (g\<lparr>resize_needed := 0\<rparr>, t')" by (simp add: resize_def Let_def)
  with ok' pl' m' f show ?thesis by (simp add: create_table_def)
qed


lemma distinct_concat_buckets:
  assumes "\<forall>i<length bs. distinct (map item_key (bs ! i))"
    and "\<forall>i<length bs. \<forall>j<length bs. i \<noteq> j \<longrightarrow>
           item_key ` set (bs ! i) \<inter> item_key ` set (bs ! j) = {}"
  shows "distinct (map item_key (concat bs))"
  using assms
proof (induction bs)
  case Nil
  then show ?case by simp
next
  case (Cons c bs)
  have d: "distinct (map item_key c)" using Cons.prems(1) by auto
  have rest1: "\<forall>i<length bs. distinct (map item_key (bs ! i))"
    using Cons.prems(1) by auto
  have rest2: "\<forall>i<length bs. \<forall>j<length bs. i \<noteq> j \<longrightarrow>
           item_key ` set (bs ! i) \<inter> item_key ` set (bs ! j) = {}"
  proof (intro allI impI)
    fix i j assume "i < length bs" "j < length bs" "i \<noteq> j"
    with Cons.prems(2) [rule_format, of "Suc i" "Suc j"]
    show "item_key ` set (bs ! i) \<inter> item_key ` set (bs ! j) = {}" by simp
  qed
  have dis: "item_key ` set c \<inter> item_key ` set (concat bs) = {}"
  proof -
    have head_disjoint: "item_key ` set c \<inter> item_key ` set (bs ! j) = {}" if "j < length bs" for j
      using Cons.prems(2) [rule_format, of 0 "Suc j"] that by simp
    show ?thesis
    proof (rule ccontr)
      assume "item_key ` set c \<inter> item_key ` set (concat bs) \<noteq> {}"
      then obtain x y where xy: "x \<in> set c" "y \<in> set (concat bs)" "item_key x = item_key y"
        by auto
      then obtain ch where "ch \<in> set bs" "y \<in> set ch" by auto
      then obtain j where "j < length bs" "ch = bs ! j" by (auto simp: in_set_conv_nth)
      with head_disjoint [of j] xy \<open>y \<in> set ch\<close> show False by auto
    qed
  qed
  from Cons.IH [OF rest1 rest2] d dis show ?case by (auto simp: image_iff)
qed

lemma hash1_index_unique:
  assumes "hash1 k nb = Inr (of_nat i)" "hash1 k nb = Inr (of_nat j)" "i < unat nb" "j < unat nb"
  shows "i = j"
proof -
  have "i < 2 ^ 64" "j < 2 ^ 64"
    using assms(3,4) unsigned_less [of nb, where 'a = nat] by simp_all
  moreover from assms(1,2) have "unat (of_nat i :: size_t) = unat (of_nat j :: size_t)" by simp
  ultimately show ?thesis by (simp add: unat_of_nat)
qed

lemma distinct_all_items:
  assumes ok: "table_ok t" and un: "uniqueness t" and pl: "placement t"
  shows "distinct (map item_key (all_items t))"
  unfolding all_items_def
proof (rule distinct_concat_buckets)
  show "\<forall>i<length (buckets t). distinct (map item_key (buckets t ! i))"
    using un by (simp add: uniqueness_iff)
  show "\<forall>i<length (buckets t). \<forall>j<length (buckets t). i \<noteq> j \<longrightarrow>
           item_key ` set (buckets t ! i) \<inter> item_key ` set (buckets t ! j) = {}"
  proof (intro allI impI)
    fix i j assume ij: "i < length (buckets t)" "j < length (buckets t)" "i \<noteq> j"
    show "item_key ` set (buckets t ! i) \<inter> item_key ` set (buckets t ! j) = {}"
    proof (rule ccontr)
      assume "item_key ` set (buckets t ! i) \<inter> item_key ` set (buckets t ! j) \<noteq> {}"
      then obtain a b where "a \<in> set (buckets t ! i)" "b \<in> set (buckets t ! j)"
        "item_key a = item_key b" by auto
      from pl ij(1) \<open>a \<in> set (buckets t ! i)\<close>
      have hi: "hash1 (item_key a) (num_buckets t) = Inr (of_nat i)"
        by (simp add: placement_iff)
      from pl ij(2) \<open>b \<in> set (buckets t ! j)\<close>
      have "hash1 (item_key b) (num_buckets t) = Inr (of_nat j)"
        by (simp add: placement_iff)
      then have hj: "hash1 (item_key a) (num_buckets t) = Inr (of_nat j)"
        by (simp add: \<open>item_key a = item_key b\<close>)
      from hash1_index_unique [OF hi hj] ij ok show False by (simp add: table_ok_def)
    qed
  qed
qed

lemma distinct_items_uniqueness:
  assumes "distinct (map item_key (all_items t))"
  shows "uniqueness t"
  unfolding uniqueness_iff
proof (intro allI impI)
  fix b assume "b < length (buckets t)"
  then have "buckets t = take b (buckets t) @ (buckets t ! b) # drop (Suc b) (buckets t)"
    by (rule id_take_nth_drop)
  then have "concat (buckets t) =
      concat (take b (buckets t) @ (buckets t ! b) # drop (Suc b) (buckets t))"
    by (rule arg_cong)
  then have "all_items t =
      concat (take b (buckets t)) @ (buckets t ! b) @ concat (drop (Suc b) (buckets t))"
    by (simp add: all_items_def)
  with assms show "distinct (map item_key (buckets t ! b))" by simp
qed

lemma resize_lookup:
  assumes ok: "table_ok t" and un: "uniqueness t" and pl: "placement t"
    and nb2: "num_buckets t * 2 \<noteq> 0" and nl2: "num_locks t * 2 \<noteq> 0"
  shows "\<exists>t'. resize g t = Inr (g\<lparr>resize_needed := 0\<rparr>, t') \<and>
           (\<forall>k. lookup t' k = lookup t k) \<and>
           table_ok t' \<and> uniqueness t' \<and> placement t'"
proof -
  from resize_ok [OF ok nb2 nl2, of g] obtain t' where
    r: "resize g t = Inr (g\<lparr>resize_needed := 0\<rparr>, t')"
    and ok': "table_ok t'" and pl': "placement t'"
    and m: "mset (all_items t') = mset (all_items t)" by blast
  have d: "distinct (map item_key (all_items t))" using ok un pl by (rule distinct_all_items)
  from m have "mset (map item_key (all_items t')) = mset (map item_key (all_items t))"
    by simp
  from mset_eq_imp_distinct_iff [OF this] d have d': "distinct (map item_key (all_items t'))"
    by simp
  from m have s: "set (all_items t') = set (all_items t)" by (rule mset_eq_setD)
  have "lookup t' k = lookup t k" for k
  proof (cases "k = INVALID_KEY")
    case True
    then show ?thesis by (simp add: lookup_invalid)
  next
    case False
    show ?thesis
      using lookup_scan_set_cong [OF d' d s]
      by (simp add: lookup_all_items [OF ok' pl' False] lookup_all_items [OF ok pl False])
  qed
  with r ok' pl' distinct_items_uniqueness [OF d'] show ?thesis by blast
qed

section \<open>Lock-free variant: agreement with the striped-lock variant\<close>

lemma hash1_lf_eq: "hash1_lf k nb = hash1 k nb"
  by (simp add: hash1_lf_def hash1_def)

lemma insert_retry_lf_eq:
  "insert_retry_lf key v head =
     (case insert_scan key v head 0 of
        (succeeded, depth, scanned) \<Rightarrow>
          if succeeded then (scanned, False, depth)
          else (\<lparr>item_key = key, item_value = v\<rparr> # head, True, depth))"
  by (simp add: Let_def split: prod.splits)

lemma resize_retry_lf_eq: "resize_retry_lf add_item head = add_item # head"
  by (simp add: Let_def)

lemma lf_of_striped_of: "lf_of (striped_of t) = t"
  by (simp add: lf_of_def striped_of_def)

lemma lookup_lf_striped: "lookup_lf t k = lookup (striped_of t) k"
  by (simp add: lookup_lf_def lookup_def hash1_lf_eq get_lock_idx_def striped_of_def
      split: sum.splits)

lemma insert_run_lf_striped:
  "insert_run_lf g t k v =
     (case insert_run g (striped_of t) k v of Inl e \<Rightarrow> Inl e | Inr r \<Rightarrow> Inr (res_lf_of r))"
proof -
  have a: "insert_added_lf g (t\<lparr>lf_buckets := bs\<rparr>) d =
        (fst (insert_added g (striped_of t\<lparr>buckets := bs\<rparr>) d),
         lf_of (snd (insert_added g (striped_of t\<lparr>buckets := bs\<rparr>) d)))" for bs d
    by (cases t) (simp add: insert_added_lf_def insert_added_def lf_of_def striped_of_def Let_def)
  show ?thesis
    by (simp add: insert_run_lf_def insert_run_def hash1_lf_eq get_lock_idx_def
        insert_retry_lf_eq res_lf_of_def lf_of_striped_of a Let_def
        split: sum.splits prod.splits)
      (auto simp: striped_of_def lf_of_def)
qed

lemma resize_insert_fields:
  "resize_insert n k v = Inr n' \<Longrightarrow>
   num_buckets n' = num_buckets n \<and> num_locks n' = num_locks n \<and>
   num_items n' = num_items n \<and> length (buckets n') = length (buckets n)"
  by (auto simp: resize_insert_def Let_def split: sum.splits if_splits)

lemma rehash_chain_fields:
  "rehash_chain n chain = Inr n' \<Longrightarrow>
   num_buckets n' = num_buckets n \<and> num_locks n' = num_locks n \<and>
   num_items n' = num_items n \<and> length (buckets n') = length (buckets n)"
proof (induction chain arbitrary: n)
  case Nil
  then show ?case by simp
next
  case (Cons node rest)
  then show ?case
    by (auto split: sum.splits dest!: resize_insert_fields)
qed

lemma rehash_buckets_fields:
  "rehash_buckets c n idxs = Inr n' \<Longrightarrow>
   num_buckets n' = num_buckets n \<and> num_locks n' = num_locks n \<and>
   num_items n' = num_items n \<and> length (buckets n') = length (buckets n)"
proof (induction idxs arbitrary: n)
  case Nil
  then show ?case by simp
next
  case (Cons i idxs)
  then show ?case
    by (auto split: sum.splits if_splits dest!: rehash_chain_fields)
qed

lemma resize_insert_lf_striped:
  "num_locks n \<noteq> 0 \<Longrightarrow>
   resize_insert_lf (lf_of n) k v =
     (case resize_insert n k v of Inl e \<Rightarrow> Inl e | Inr n' \<Rightarrow> Inr (lf_of n'))"
  by (simp add: resize_insert_lf_def resize_insert_def hash1_lf_eq get_lock_idx_def
      resize_retry_lf_eq lf_of_def Let_def split: sum.splits)

lemma rehash_chain_lf_striped:
  "num_locks n \<noteq> 0 \<Longrightarrow>
   rehash_chain_lf (lf_of n) chain =
     (case rehash_chain n chain of Inl e \<Rightarrow> Inl e | Inr n' \<Rightarrow> Inr (lf_of n'))"
proof (induction chain arbitrary: n)
  case Nil
  then show ?case by simp
next
  case (Cons node rest)
  show ?case
  proof (cases "resize_insert n (item_key node) (item_value node)")
    case (Inl e)
    with Cons.prems show ?thesis by (simp add: resize_insert_lf_striped)
  next
    case (Inr n1)
    with resize_insert_fields [OF Inr] Cons.prems have "num_locks n1 \<noteq> 0" by simp
    from Cons.IH [OF this] Inr Cons.prems show ?thesis by (simp add: resize_insert_lf_striped)
  qed
qed

lemma rehash_buckets_lf_striped:
  "num_locks n \<noteq> 0 \<Longrightarrow>
   rehash_buckets_lf (lf_of c) (lf_of n) idxs =
     (case rehash_buckets c n idxs of Inl e \<Rightarrow> Inl e | Inr n' \<Rightarrow> Inr (lf_of n'))"
proof (induction idxs arbitrary: n)
  case Nil
  then show ?case by simp
next
  case (Cons i idxs)
  have len: "length (lf_buckets (lf_of c)) = length (buckets c)"
    and nth: "lf_buckets (lf_of c) ! i = buckets c ! i" by (simp_all add: lf_of_def)
  show ?case
  proof (cases "i < length (buckets c)")
    case False
    then show ?thesis by (simp add: len)
  next
    case True
    show ?thesis
    proof (cases "rehash_chain n (buckets c ! i)")
      case (Inl e)
      with True Cons.prems show ?thesis by (simp add: len nth rehash_chain_lf_striped)
    next
      case (Inr n1)
      with rehash_chain_fields [OF Inr] Cons.prems have "num_locks n1 \<noteq> 0" by simp
      from Cons.IH [OF this] Inr True Cons.prems show ?thesis
        by (simp add: len nth rehash_chain_lf_striped)
    qed
  qed
qed

lemma resize_lf_striped:
  "resize_lf g t =
     (case resize g (striped_of t) of Inl e \<Rightarrow> Inl e | Inr (g', t') \<Rightarrow> Inr (g', lf_of t'))"
proof -
  let ?n = "(create_table (lf_num_buckets t * 2) (1 * 2))\<lparr>num_items := lf_num_items t\<rparr>"
  have n: "(create_table_lf (lf_num_buckets t * 2) 1)\<lparr>lf_num_items := lf_num_items t\<rparr> = lf_of ?n"
    by (simp add: create_table_lf_def create_table_def lf_of_def)
  have nl: "num_locks ?n \<noteq> 0" by (simp add: create_table_def)
  have c: "t = lf_of (striped_of t)" by (simp add: lf_of_striped_of)
  have "rehash_buckets_lf t (lf_of ?n) idxs =
     (case rehash_buckets (striped_of t) ?n idxs of Inl e \<Rightarrow> Inl e | Inr n' \<Rightarrow> Inr (lf_of n'))" for idxs
    using rehash_buckets_lf_striped [OF nl, of "striped_of t" idxs] by (simp add: lf_of_striped_of)
  then show ?thesis
    by (simp add: resize_lf_def resize_def n Let_def split: sum.splits) (simp add: striped_of_def)
qed

lemma table_ok_lf_striped: "table_ok (striped_of t) \<longleftrightarrow> table_ok_lf t"
  by (simp add: table_ok_def table_ok_lf_def striped_of_def)

lemma uniqueness_lf_striped: "uniqueness (striped_of t) \<longleftrightarrow> uniqueness_lf t"
  by (simp add: uniqueness_def uniqueness_lf_def striped_of_def)

lemma placement_lf_striped: "placement (striped_of t) \<longleftrightarrow> placement_lf t"
  by (simp add: placement_def placement_lf_def striped_of_def hash1_lf_eq)

lemma table_ok_lf_of: "table_ok t \<Longrightarrow> table_ok_lf (lf_of t)"
  by (simp add: table_ok_def table_ok_lf_def lf_of_def)

lemma uniqueness_lf_of: "uniqueness_lf (lf_of t) \<longleftrightarrow> uniqueness t"
  by (simp add: uniqueness_def uniqueness_lf_def lf_of_def)

lemma placement_lf_of: "placement_lf (lf_of t) \<longleftrightarrow> placement t"
  by (simp add: placement_def placement_lf_def lf_of_def hash1_lf_eq)

lemma lookup_lf_of: "num_locks t \<noteq> 0 \<Longrightarrow> lookup_lf (lf_of t) k = lookup t k"
  by (simp add: lookup_lf_def lookup_def hash1_lf_eq get_lock_idx_def lf_of_def
      split: sum.splits)

section \<open>What an insert does to the counter, the flags and the node count\<close>







lemma insert_run_resize_needed:
  assumes "insert_run g t k v = Inr r"
  shows "resize_needed (res_globals r) =
           (if res_added_node r \<and> resize_enabled g \<noteq> 0 \<and> MAX_CHAIN_SIZE \<le>s res_depth r \<and>
               resize_needed g = 0
            then 1 else resize_needed g) \<and>
         resize_enabled (res_globals r) = resize_enabled g \<and>
         speed_test (res_globals r) = speed_test g"
  using assms
  by (auto simp: insert_run_def insert_added_def Let_def split: if_splits sum.splits prod.splits)

section \<open>Inserts keep the data-model invariants\<close>

lemma insert_run_invariants:
  assumes ok: "table_ok t" and un: "uniqueness t" and pl: "placement t"
    and kv: "k \<noteq> INVALID_KEY" "v \<noteq> INVALID_VALUE"
  shows "\<exists>r. insert_run g t k v = Inr r \<and> table_ok (res_table r) \<and>
           uniqueness (res_table r) \<and> placement (res_table r)"
proof -
  let ?b = "bucket_of t k"
  from insert_run_table [OF ok kv, of g] obtain r where r: "insert_run g t k v = Inr r"
    and bs: "buckets (res_table r) = (buckets t)[?b := chain_after k v (buckets t ! ?b)]"
    and nb: "num_buckets (res_table r) = num_buckets t"
    and nl: "num_locks (res_table r) = num_locks t" by blast
  have lt: "?b < length (buckets t)" using ok by (rule bucket_of_less)
  from ok bs nb nl have ok': "table_ok (res_table r)" by (simp add: table_ok_def)
  have un': "uniqueness (res_table r)"
    unfolding uniqueness_iff
  proof (intro allI impI)
    fix b assume "b < length (buckets (res_table r))"
    with un bs show "distinct (map item_key (buckets (res_table r) ! b))"
      by (cases "b = ?b") (simp_all add: uniqueness_iff chain_after_distinct)
  qed
  from ok have h: "hash1 k (num_buckets t) = Inr (of_nat ?b)"
    by (simp add: table_ok_def hash1_Inr bucket_of_def)
  have pl': "placement (res_table r)"
    unfolding placement_iff
  proof (intro allI impI ballI)
    fix b node
    assume b: "b < length (buckets (res_table r))" and node: "node \<in> set (buckets (res_table r) ! b)"
    show "hash1 (item_key node) (num_buckets (res_table r)) = Inr (of_nat b)"
    proof (cases "b = ?b")
      case True
      with node bs lt have "item_key node \<in> set (map item_key (chain_after k v (buckets t ! ?b)))"
        by simp
      with chain_after_keys [of k v "buckets t ! ?b"]
      have "item_key node = k \<or> item_key node \<in> item_key ` set (buckets t ! ?b)"
        by auto
      then show ?thesis
      proof
        assume "item_key node = k"
        with h True nb show ?thesis by simp
      next
        assume "item_key node \<in> item_key ` set (buckets t ! ?b)"
        then obtain m where m: "m \<in> set (buckets t ! ?b)" "item_key m = item_key node" by auto
        from pl lt m(1) have "hash1 (item_key m) (num_buckets t) = Inr (of_nat ?b)"
          by (simp add: placement_iff)
        with m(2) True nb show ?thesis by simp
      qed
    next
      case False
      with node b bs pl nb show ?thesis by (simp add: placement_iff)
    qed
  qed
  from r ok' un' pl' show ?thesis by blast
qed

lemma create_table_uniqueness: "uniqueness (create_table nb nl)"
  by (simp add: uniqueness_iff create_table_def)

lemma insert_all_invariants:
  assumes "table_ok t" "uniqueness t" "placement t" "valid_ops ops"
  shows "\<exists>g' t'. insert_all g t ops = Inr (g', t') \<and> table_ok t' \<and> uniqueness t' \<and> placement t'"
  using assms
proof (induction ops arbitrary: g t)
  case Nil
  then show ?case by simp
next
  case (Cons op ops)
  obtain k v where op: "op = (k, v)" by (cases op)
  with Cons.prems have kv: "k \<noteq> INVALID_KEY" "v \<noteq> INVALID_VALUE" and rest: "valid_ops ops"
    by (simp_all add: valid_ops_def)
  from insert_run_invariants [OF Cons.prems(1-3) kv, of g] obtain r where
    r: "insert_run g t k v = Inr r" and inv: "table_ok (res_table r)" "uniqueness (res_table r)"
      "placement (res_table r)" by blast
  from Cons.IH [OF inv rest, of "res_globals r"] r op show ?case
    by (simp add: insert_tbl_def)
qed

lemma reachable_invariants:
  assumes "nb \<noteq> 0" "nl \<noteq> 0" "valid_ops ops"
  shows "\<exists>g' t'. insert_all g (create_table nb nl) ops = Inr (g', t') \<and>
           table_ok t' \<and> uniqueness t' \<and> placement t'"
  using insert_all_invariants [OF create_table_ok [OF assms(1,2)] create_table_uniqueness
      create_table_placement assms(3)] .

section \<open>The scan depth and the resize trigger\<close>

lemma sle_of_nat:
  assumes "n < 2 ^ 31"
  shows "MAX_CHAIN_SIZE \<le>s (of_nat n :: cint) \<longleftrightarrow> 8 \<le> n"
proof -
  have "sint (of_nat n :: cint) = int n"
    using assms by (simp add: signed_of_nat signed_take_bit_int_eq_self_iff)
  then show ?thesis by (simp add: word_sle_eq MAX_CHAIN_SIZE_def)
qed

lemma insert_run_added:
  assumes "table_ok t" "k \<noteq> INVALID_KEY" "v \<noteq> INVALID_VALUE" "insert_run g t k v = Inr r"
  shows "res_added_node r \<longleftrightarrow> k \<notin> item_key ` set (buckets t ! bucket_of t k)"
  using insert_run_table [OF assms(1-3), of g] assms(4) by auto

lemma insert_run_depth:
  assumes "table_ok t" "k \<noteq> INVALID_KEY" "v \<noteq> INVALID_VALUE" "insert_run g t k v = Inr r"
    "res_added_node r"
  shows "res_depth r = of_nat (length (buckets t ! bucket_of t k))"
proof -
  from insert_run_added [OF assms(1-4)] assms(5)
  have "k \<notin> item_key ` set (buckets t ! bucket_of t k)" by simp
  from insert_scan_absent [OF this, of v 0] assms(4) show ?thesis
    by (auto simp: insert_run_eq [OF assms(1-3)])
qed

lemma insert_run_trigger:
  assumes ok: "table_ok t" and kv: "k \<noteq> INVALID_KEY" "v \<noteq> INVALID_VALUE"
    and r: "insert_run g t k v = Inr r"
    and len: "length (buckets t ! bucket_of t k) < 2 ^ 31"
    and g0: "resize_needed g = 0"
  shows "resize_needed (res_globals r) = 1 \<longleftrightarrow>
           k \<notin> item_key ` set (buckets t ! bucket_of t k) \<and> resize_enabled g \<noteq> 0 \<and>
           8 \<le> length (buckets t ! bucket_of t k)"
proof (cases "res_added_node r")
  case True
  from insert_run_depth [OF ok kv r True] sle_of_nat [OF len]
  have "MAX_CHAIN_SIZE \<le>s res_depth r \<longleftrightarrow> 8 \<le> length (buckets t ! bucket_of t k)" by simp
  with insert_run_resize_needed [OF r] insert_run_added [OF ok kv r] True g0 show ?thesis by simp
next
  case False
  with insert_run_resize_needed [OF r] insert_run_added [OF ok kv r] g0 show ?thesis by simp
qed

section \<open>The table that main creates\<close>

lemma create_table_fields:
  "num_buckets (create_table nb nl) = nb" "num_locks (create_table nb nl) = nl"
  "num_items (create_table nb nl) = 0" "length (buckets (create_table nb nl)) = unat nb"
  by (simp_all add: create_table_def)

section \<open>Lookup after a sequence of inserts\<close>

lemma most_recent_append:
  "most_recent (ops @ [(k, v)]) k' = (if k' = k then Some v else most_recent ops k')"
  by (induction ops) (auto split: option.splits)

lemma insert_all_fresh:
  assumes "nb \<noteq> 0" "nl \<noteq> 0" "valid_ops ops"
  shows "\<exists>g' t'. insert_all g (create_table nb nl) ops = Inr (g', t') \<and> table_ok t' \<and>
           (\<forall>k. lookup t' k =
                  Inr (case most_recent ops k of Some v \<Rightarrow> v | None \<Rightarrow> INVALID_VALUE))"
proof -
  from insert_all_lookup [OF create_table_ok [OF assms(1,2)] assms(3), of g]
  obtain g' t' where run: "insert_all g (create_table nb nl) ops = Inr (g', t')"
    and ok: "table_ok t'"
    and l: "\<And>k. lookup t' k =
       (case most_recent ops k of Some v \<Rightarrow> Inr v | None \<Rightarrow> lookup (create_table nb nl) k)"
    by blast
  have "lookup t' k = Inr (case most_recent ops k of Some v \<Rightarrow> v | None \<Rightarrow> INVALID_VALUE)" for k
    by (simp add: l create_table_lookup [OF assms(1,2)] split: option.splits)
  with run ok show ?thesis by blast
qed

lemma insert_run_num_locks:
  "insert_run g t k v = Inr r \<Longrightarrow> num_locks (res_table r) = num_locks t"
  by (auto simp: insert_run_def insert_added_def Let_def split: if_splits sum.splits prod.splits)

lemma insert_run_lf_of:
  assumes "num_locks t \<noteq> 0"
  shows "insert_run_lf g (lf_of t) k v =
     (case insert_run g t k v of Inl e \<Rightarrow> Inl e | Inr r \<Rightarrow> Inr (res_lf_of r))"
proof -
  have a: "insert_added_lf g (lf_of t\<lparr>lf_buckets := bs\<rparr>) d =
        (fst (insert_added g (t\<lparr>buckets := bs\<rparr>) d),
         lf_of (snd (insert_added g (t\<lparr>buckets := bs\<rparr>) d)))" for bs d
    by (cases t) (simp add: insert_added_lf_def insert_added_def lf_of_def Let_def)
  have b: "lf_buckets (lf_of t) = buckets t" "lf_num_buckets (lf_of t) = num_buckets t"
    by (simp_all add: lf_of_def)
  show ?thesis
    using assms
    by (simp add: insert_run_lf_def insert_run_def hash1_lf_eq get_lock_idx_def
        insert_retry_lf_eq res_lf_of_def a b Let_def split: sum.splits prod.splits)
      (auto simp: lf_of_def)
qed

lemma insert_all_lf_of:
  "num_locks t \<noteq> 0 \<Longrightarrow>
   insert_all_lf g (lf_of t) ops =
     (case insert_all g t ops of Inl e \<Rightarrow> Inl e | Inr (g', t') \<Rightarrow> Inr (g', lf_of t'))"
proof (induction ops arbitrary: g t)
  case Nil
  then show ?case by simp
next
  case (Cons op ops)
  obtain k v where op: "op = (k, v)" by (cases op)
  show ?case
  proof (cases "insert_run g t k v")
    case (Inl e)
    with Cons.prems op show ?thesis
      by (simp add: insert_lf_def insert_tbl_def insert_run_lf_of)
  next
    case (Inr r)
    with insert_run_num_locks [OF Inr] Cons.prems have "num_locks (res_table r) \<noteq> 0" by simp
    from Cons.IH [OF this, of "res_globals r"] Inr Cons.prems op show ?thesis
      by (simp add: insert_lf_def insert_tbl_def insert_run_lf_of res_lf_of_def)
  qed
qed

lemma insert_all_lf_fresh:
  assumes "nb \<noteq> 0" "valid_ops ops"
  shows "\<exists>g' u'. insert_all_lf g (create_table_lf nb nl) ops = Inr (g', u') \<and>
           (\<forall>k. lookup_lf u' k =
                  Inr (case most_recent ops k of Some v \<Rightarrow> v | None \<Rightarrow> INVALID_VALUE))"
proof -
  have one: "(1 :: size_t) \<noteq> 0" by simp
  from insert_all_fresh [OF assms(1) one assms(2), of g] obtain g' t' where
    run: "insert_all g (create_table nb 1) ops = Inr (g', t')" and ok: "table_ok t'"
    and l: "\<And>k. lookup t' k =
                  Inr (case most_recent ops k of Some v \<Rightarrow> v | None \<Rightarrow> INVALID_VALUE)"
    by blast
  have c: "create_table_lf nb nl = lf_of (create_table nb 1)"
    by (simp add: create_table_lf_def create_table_def lf_of_def)
  have nl1: "num_locks (create_table nb 1) \<noteq> 0" by (simp add: create_table_def)
  from ok have nl': "num_locks t' \<noteq> 0" by (simp add: table_ok_def)
  from run have "insert_all_lf g (create_table_lf nb nl) ops = Inr (g', lf_of t')"
    by (simp add: c insert_all_lf_of [OF nl1])
  moreover have "lookup_lf (lf_of t') k =
      Inr (case most_recent ops k of Some v \<Rightarrow> v | None \<Rightarrow> INVALID_VALUE)" for k
    using lookup_lf_of [OF nl', of k] l [of k] by simp
  ultimately show ?thesis by blast
qed

text \<open>
  C1. Sequential functional correctness of the map. On a table with a bucket per
  \<open>num_buckets\<close> and at least one bucket and one lock, every sequence of inserts with
  non-sentinel keys and values runs to completion, and a lookup of any key \<open>k\<close> on the
  resulting table returns the value of the most recent insert under \<open>k\<close>, or what
  the lookup returned before the sequence when none of its inserts had key \<open>k\<close>. On a
  table fresh from \<open>create_table\<close>, in both variants, that is \<open>INVALID_VALUE\<close>: the key
  was never inserted. In particular \<open>insert(k, v1); insert(k, v2)\<close> on a fresh table is
  followed by \<open>lookup(k) = v2\<close>.
\<close>

theorem insert_then_lookup:
  "(table_ok t \<and> valid_ops ops \<longrightarrow>
      (\<exists>g' t'. insert_all g t ops = Inr (g', t') \<and>
         (\<forall>k. lookup t' k =
                (case most_recent ops k of Some v \<Rightarrow> Inr v | None \<Rightarrow> lookup t k)))) \<and>
   (nb \<noteq> 0 \<and> nl \<noteq> 0 \<and> valid_ops ops \<longrightarrow>
      (\<exists>g' t'. insert_all g (create_table nb nl) ops = Inr (g', t') \<and>
         (\<forall>k. lookup t' k =
                Inr (case most_recent ops k of Some v \<Rightarrow> v | None \<Rightarrow> INVALID_VALUE)))) \<and>
   (nb \<noteq> 0 \<and> valid_ops ops \<longrightarrow>
      (\<exists>g' u'. insert_all_lf g (create_table_lf nb nl) ops = Inr (g', u') \<and>
         (\<forall>k. lookup_lf u' k =
                Inr (case most_recent ops k of Some v \<Rightarrow> v | None \<Rightarrow> INVALID_VALUE)))) \<and>
   (nb \<noteq> 0 \<and> nl \<noteq> 0 \<and> valid_ops [(k1, v1), (k1, v2)] \<longrightarrow>
      (\<exists>g' t'. insert_all g (create_table nb nl) [(k1, v1), (k1, v2)] = Inr (g', t') \<and>
         lookup t' k1 = Inr v2))"
proof (intro conjI impI)
  assume "table_ok t \<and> valid_ops ops"
  then have "table_ok t" "valid_ops ops" by simp_all
  from insert_all_lookup [OF this, of g]
  show "\<exists>g' t'. insert_all g t ops = Inr (g', t') \<and>
         (\<forall>k. lookup t' k =
                (case most_recent ops k of Some v \<Rightarrow> Inr v | None \<Rightarrow> lookup t k))"
    by blast
next
  assume "nb \<noteq> 0 \<and> nl \<noteq> 0 \<and> valid_ops ops"
  then have "nb \<noteq> 0" "nl \<noteq> 0" "valid_ops ops" by simp_all
  from insert_all_fresh [OF this, of g]
  show "\<exists>g' t'. insert_all g (create_table nb nl) ops = Inr (g', t') \<and>
         (\<forall>k. lookup t' k =
                Inr (case most_recent ops k of Some v \<Rightarrow> v | None \<Rightarrow> INVALID_VALUE))"
    by blast
next
  assume "nb \<noteq> 0 \<and> valid_ops ops"
  then have "nb \<noteq> 0" "valid_ops ops" by simp_all
  from insert_all_lf_fresh [OF this, of g nl]
  show "\<exists>g' u'. insert_all_lf g (create_table_lf nb nl) ops = Inr (g', u') \<and>
         (\<forall>k. lookup_lf u' k =
                Inr (case most_recent ops k of Some v \<Rightarrow> v | None \<Rightarrow> INVALID_VALUE))"
    by blast
next
  assume "nb \<noteq> 0 \<and> nl \<noteq> 0 \<and> valid_ops [(k1, v1), (k1, v2)]"
  then have "nb \<noteq> 0" "nl \<noteq> 0" "valid_ops [(k1, v1), (k1, v2)]" by simp_all
  from insert_all_fresh [OF this, of g] obtain g' t' where
    run: "insert_all g (create_table nb nl) [(k1, v1), (k1, v2)] = Inr (g', t')"
    and l: "\<And>k. lookup t' k =
      Inr (case most_recent [(k1, v1), (k1, v2)] k of Some v \<Rightarrow> v | None \<Rightarrow> INVALID_VALUE)"
    by blast
  from l [of k1] have "lookup t' k1 = Inr v2" by simp
  with run show "\<exists>g' t'. insert_all g (create_table nb nl) [(k1, v1), (k1, v2)] = Inr (g', t') \<and>
         lookup t' k1 = Inr v2"
    by blast
qed

theorem insert_then_lookup_witness:
  "(\<exists>g' t'. insert_all \<lparr>resize_enabled = 1, speed_test = 0, resize_needed = 0\<rparr>
              (create_table 64 8) [(7, 1), (7, 2), (3, 9)] = Inr (g', t') \<and>
     lookup t' 7 = Inr 2 \<and> lookup t' 3 = Inr 9 \<and> lookup t' 5 = Inr INVALID_VALUE) \<and>
   (\<exists>g' u'. insert_all_lf \<lparr>resize_enabled = 1, speed_test = 0, resize_needed = 0\<rparr>
              (create_table_lf 64 8) [(7, 1), (7, 2), (3, 9)] = Inr (g', u') \<and>
     lookup_lf u' 7 = Inr 2 \<and> lookup_lf u' 3 = Inr 9 \<and> lookup_lf u' 5 = Inr INVALID_VALUE)"
proof -
  let ?G = "\<lparr>resize_enabled = 1, speed_test = 0, resize_needed = 0\<rparr>"
  let ?ops = "[(7, 1), (7, 2), (3, 9)] :: (u64 \<times> u64) list"
  have v: "valid_ops ?ops"
    by (simp add: valid_ops_def INVALID_KEY_def INVALID_VALUE_def)
  have nz: "(64 :: size_t) \<noteq> 0" "(8 :: size_t) \<noteq> 0" by simp_all
  note w = insert_then_lookup [of "create_table 64 8" ?ops ?G 64 8 7 1 2]
  from w nz v obtain g' t' where run: "insert_all ?G (create_table 64 8) ?ops = Inr (g', t')"
    and l: "\<And>k. lookup t' k =
      Inr (case most_recent ?ops k of Some v \<Rightarrow> v | None \<Rightarrow> INVALID_VALUE)"
    by blast
  from w nz v obtain h' u' where runu: "insert_all_lf ?G (create_table_lf 64 8) ?ops = Inr (h', u')"
    and lu: "\<And>k. lookup_lf u' k =
      Inr (case most_recent ?ops k of Some v \<Rightarrow> v | None \<Rightarrow> INVALID_VALUE)"
    by blast
  have "lookup t' 7 = Inr 2" "lookup t' 3 = Inr 9" "lookup t' 5 = Inr INVALID_VALUE"
    "lookup_lf u' 7 = Inr 2" "lookup_lf u' 3 = Inr 9" "lookup_lf u' 5 = Inr INVALID_VALUE"
    by (simp_all add: l lu)
  with run runu show ?thesis by blast
qed

section \<open>Resize preserves contents\<close>

lemma resize_lookup_lf:
  assumes ok: "table_ok_lf u" and un: "uniqueness_lf u" and pl: "placement_lf u"
    and nb2: "lf_num_buckets u * 2 \<noteq> 0"
  shows "\<exists>u'. resize_lf g u = Inr (g\<lparr>resize_needed := 0\<rparr>, u') \<and>
           (\<forall>k. lookup_lf u' k = lookup_lf u k) \<and>
           table_ok_lf u' \<and> uniqueness_lf u' \<and> placement_lf u'"
proof -
  have nb2': "num_buckets (striped_of u) * 2 \<noteq> 0" and nl2': "num_locks (striped_of u) * 2 \<noteq> 0"
    using nb2 by (simp_all add: striped_of_def)
  from resize_lookup [OF ok [folded table_ok_lf_striped] un [folded uniqueness_lf_striped]
      pl [folded placement_lf_striped] nb2' nl2', of g]
  obtain t' where r: "resize g (striped_of u) = Inr (g\<lparr>resize_needed := 0\<rparr>, t')"
    and l: "\<And>k. lookup t' k = lookup (striped_of u) k"
    and inv: "table_ok t'" "uniqueness t'" "placement t'" by blast
  from inv(1) have nl: "num_locks t' \<noteq> 0" by (simp add: table_ok_def)
  from r have "resize_lf g u = Inr (g\<lparr>resize_needed := 0\<rparr>, lf_of t')"
    by (simp add: resize_lf_striped)
  moreover have "lookup_lf (lf_of t') k = lookup_lf u k" for k
    using lookup_lf_of [OF nl, of k] l [of k] lookup_lf_striped [of u k] by simp
  ultimately show ?thesis
    using inv by (auto simp: table_ok_lf_of uniqueness_lf_of placement_lf_of)
qed

text \<open>
  C2. Resize preserves contents, in both variants. For a table whose bucket array has
  \<open>num_buckets\<close> entries, whose chains hold each key at most once (I1) and only keys that
  hash to their bucket (I2), and whose doubled sizes do not wrap around to zero, \<open>resize\<close>
  returns a table on which the lookup of every key gives what it gave on the old table.
  The resized table is again such a table, and by \<open>reachable_invariants\<close> so is every
  table built by \<open>create_table\<close> and inserts.
\<close>

theorem resize_preserves_lookup:
  "(table_ok t \<and> uniqueness t \<and> placement t \<and> num_buckets t * 2 \<noteq> 0 \<and> num_locks t * 2 \<noteq> 0 \<longrightarrow>
      (\<exists>t'. resize g t = Inr (g\<lparr>resize_needed := 0\<rparr>, t') \<and>
            (\<forall>k. lookup t' k = lookup t k) \<and>
            table_ok t' \<and> uniqueness t' \<and> placement t')) \<and>
   (table_ok_lf u \<and> uniqueness_lf u \<and> placement_lf u \<and> lf_num_buckets u * 2 \<noteq> 0 \<longrightarrow>
      (\<exists>u'. resize_lf g u = Inr (g\<lparr>resize_needed := 0\<rparr>, u') \<and>
            (\<forall>k. lookup_lf u' k = lookup_lf u k) \<and>
            table_ok_lf u' \<and> uniqueness_lf u' \<and> placement_lf u'))"
proof (intro conjI impI)
  assume "table_ok t \<and> uniqueness t \<and> placement t \<and> num_buckets t * 2 \<noteq> 0 \<and> num_locks t * 2 \<noteq> 0"
  then have "table_ok t" "uniqueness t" "placement t" "num_buckets t * 2 \<noteq> 0" "num_locks t * 2 \<noteq> 0"
    by simp_all
  from resize_lookup [OF this, of g]
  show "\<exists>t'. resize g t = Inr (g\<lparr>resize_needed := 0\<rparr>, t') \<and> (\<forall>k. lookup t' k = lookup t k) \<and>
            table_ok t' \<and> uniqueness t' \<and> placement t'"
    by blast
next
  assume "table_ok_lf u \<and> uniqueness_lf u \<and> placement_lf u \<and> lf_num_buckets u * 2 \<noteq> 0"
  then have "table_ok_lf u" "uniqueness_lf u" "placement_lf u" "lf_num_buckets u * 2 \<noteq> 0"
    by simp_all
  from resize_lookup_lf [OF this, of g]
  show "\<exists>u'. resize_lf g u = Inr (g\<lparr>resize_needed := 0\<rparr>, u') \<and> (\<forall>k. lookup_lf u' k = lookup_lf u k) \<and>
            table_ok_lf u' \<and> uniqueness_lf u' \<and> placement_lf u'"
    by blast
qed

theorem resize_preserves_lookup_witness:
  "(\<exists>t'. resize \<lparr>resize_enabled = 1, speed_test = 0, resize_needed = 1\<rparr>
           \<lparr>buckets = [[\<lparr>item_key = 9, item_value = 5\<rparr>, \<lparr>item_key = 7, item_value = 1\<rparr>], []],
            num_buckets = 2, num_locks = 1, num_items = 2\<rparr>
         = Inr (\<lparr>resize_enabled = 1, speed_test = 0, resize_needed = 0\<rparr>, t') \<and>
         lookup t' 7 = Inr 1 \<and> lookup t' 9 = Inr 5 \<and> lookup t' 8 = Inr INVALID_VALUE) \<and>
   (\<exists>u'. resize_lf \<lparr>resize_enabled = 1, speed_test = 0, resize_needed = 1\<rparr>
           \<lparr>lf_buckets = [[\<lparr>item_key = 9, item_value = 5\<rparr>, \<lparr>item_key = 7, item_value = 1\<rparr>], []],
            lf_num_buckets = 2, lf_num_items = 2\<rparr>
         = Inr (\<lparr>resize_enabled = 1, speed_test = 0, resize_needed = 0\<rparr>, u') \<and>
         lookup_lf u' 7 = Inr 1 \<and> lookup_lf u' 9 = Inr 5 \<and> lookup_lf u' 8 = Inr INVALID_VALUE)"
proof -
  let ?G = "\<lparr>resize_enabled = 1, speed_test = 0, resize_needed = 1\<rparr>"
  let ?T = "\<lparr>buckets = [[\<lparr>item_key = 9, item_value = 5\<rparr>, \<lparr>item_key = 7, item_value = 1\<rparr>], []],
            num_buckets = 2, num_locks = 1, num_items = 2\<rparr>"
  let ?U = "\<lparr>lf_buckets = [[\<lparr>item_key = 9, item_value = 5\<rparr>, \<lparr>item_key = 7, item_value = 1\<rparr>], []],
            lf_num_buckets = 2, lf_num_items = 2\<rparr>"
  have hT: "table_ok ?T \<and> uniqueness ?T \<and> placement ?T \<and> num_buckets ?T * 2 \<noteq> 0 \<and>
            num_locks ?T * 2 \<noteq> 0"
    by (simp add: table_ok_def uniqueness_def placement_def hash1_def)
  have hU: "table_ok_lf ?U \<and> uniqueness_lf ?U \<and> placement_lf ?U \<and> lf_num_buckets ?U * 2 \<noteq> 0"
    by (simp add: table_ok_lf_def uniqueness_lf_def placement_lf_def hash1_lf_def)
  have lT: "lookup ?T 7 = Inr 1" "lookup ?T 9 = Inr 5" "lookup ?T 8 = Inr INVALID_VALUE"
    by (simp_all add: lookup_def hash1_def get_lock_idx_def INVALID_KEY_def)
  have lU: "lookup_lf ?U 7 = Inr 1" "lookup_lf ?U 9 = Inr 5" "lookup_lf ?U 8 = Inr INVALID_VALUE"
    by (simp_all add: lookup_lf_def hash1_lf_def INVALID_KEY_def)
  from resize_preserves_lookup [of ?T ?G ?U] hT hU
  obtain t' u' where "resize ?G ?T = Inr (?G\<lparr>resize_needed := 0\<rparr>, t')"
    "\<And>k. lookup t' k = lookup ?T k"
    "resize_lf ?G ?U = Inr (?G\<lparr>resize_needed := 0\<rparr>, u')"
    "\<And>k. lookup_lf u' k = lookup_lf ?U k"
    by blast
  with lT lU show ?thesis by simp
qed

section \<open>Sentinel rejection\<close>

text \<open>
  C3. Sentinel rejection, in both variants. On any table whatever, an insert with key
  \<open>INVALID_KEY\<close> or with value \<open>INVALID_VALUE\<close> returns the table and the flags as they
  were, with no node added; a lookup of \<open>INVALID_KEY\<close> returns \<open>INVALID_VALUE\<close>. The
  lookup holds also for a table with no bucket and \<open>num_buckets = 0\<close>, where reading a
  bucket is an error of the model: no bucket is examined.
\<close>

theorem sentinel_rejection:
  "insert_tbl g t INVALID_KEY v = Inr (g, t) \<and>
   insert_tbl g t k INVALID_VALUE = Inr (g, t) \<and>
   insert_run g t INVALID_KEY v =
     Inr \<lparr>res_globals = g, res_table = t, res_added_node = False, res_depth = 0\<rparr> \<and>
   insert_run g t k INVALID_VALUE =
     Inr \<lparr>res_globals = g, res_table = t, res_added_node = False, res_depth = 0\<rparr> \<and>
   lookup t INVALID_KEY = Inr INVALID_VALUE \<and>
   lookup (create_table 0 0) INVALID_KEY = Inr INVALID_VALUE \<and>
   insert_lf g u INVALID_KEY v = Inr (g, u) \<and>
   insert_lf g u k INVALID_VALUE = Inr (g, u) \<and>
   lookup_lf u INVALID_KEY = Inr INVALID_VALUE \<and>
   lookup_lf (create_table_lf 0 0) INVALID_KEY = Inr INVALID_VALUE"
  by (simp add: insert_tbl_def insert_run_def insert_lf_def insert_run_lf_def lookup_def
      lookup_lf_def)

section \<open>The resize trigger\<close>

lemma insert_run_lf_Inr:
  assumes "insert_run_lf g u k v = Inr q"
  shows "\<exists>r. insert_run g (striped_of u) k v = Inr r \<and> q = res_lf_of r"
  using assms by (auto simp: insert_run_lf_striped split: sum.splits)

lemma res_lf_of_simps:
  "lf_res_globals (res_lf_of r) = res_globals r"
  "lf_res_added_node (res_lf_of r) = res_added_node r"
  "lf_res_depth (res_lf_of r) = res_depth r"
  "lf_num_items (lf_res_table (res_lf_of r)) = num_items (res_table r)"
  "lf_buckets (lf_res_table (res_lf_of r)) = buckets (res_table r)"
  "all_items_lf (lf_res_table (res_lf_of r)) = all_items (res_table r)"
  by (simp_all add: res_lf_of_def lf_of_def all_items_lf_def all_items_def)

lemma striped_of_simps:
  "buckets (striped_of u) = lf_buckets u"
  "num_buckets (striped_of u) = lf_num_buckets u"
  "num_items (striped_of u) = lf_num_items u"
  "all_items (striped_of u) = all_items_lf u"
  "bucket_of (striped_of u) k = bucket_of_lf u k"
  by (simp_all add: striped_of_def all_items_lf_def all_items_def bucket_of_def bucket_of_lf_def)

text \<open>
  C4. Resize trigger, in both variants. After an insert that returns, \<open>resize_needed\<close> is
  1 where the insert added a node, resizing is enabled, the scan depth is at least
  \<open>MAX_CHAIN_SIZE\<close> and the flag read 0, and is what it was in every other case; an insert
  that updates in place leaves the flag alone whatever the chain length. On a table with a
  bucket per \<open>num_buckets\<close>, for non-sentinel arguments and a flag that is 0 before, the
  flag is 1 afterwards exactly when the key was not in its chain, resizing is enabled and
  the chain had at least 8 nodes (the scan depth of a new-node insert is the chain length).
\<close>

theorem resize_trigger:
  "(insert_run g t k v = Inr r \<longrightarrow>
      resize_needed (res_globals r) =
        (if res_added_node r \<and> resize_enabled g \<noteq> 0 \<and> MAX_CHAIN_SIZE \<le>s res_depth r \<and>
            resize_needed g = 0
         then 1 else resize_needed g) \<and>
      (\<not> res_added_node r \<longrightarrow> resize_needed (res_globals r) = resize_needed g) \<and>
      (table_ok t \<and> k \<noteq> INVALID_KEY \<and> v \<noteq> INVALID_VALUE \<and>
       length (buckets t ! bucket_of t k) < 2 ^ 31 \<and> resize_needed g = 0 \<longrightarrow>
         (resize_needed (res_globals r) = 1 \<longleftrightarrow>
            k \<notin> item_key ` set (buckets t ! bucket_of t k) \<and> resize_enabled g \<noteq> 0 \<and>
            8 \<le> length (buckets t ! bucket_of t k)))) \<and>
   (insert_run_lf g u k v = Inr q \<longrightarrow>
      resize_needed (lf_res_globals q) =
        (if lf_res_added_node q \<and> resize_enabled g \<noteq> 0 \<and> MAX_CHAIN_SIZE \<le>s lf_res_depth q \<and>
            resize_needed g = 0
         then 1 else resize_needed g) \<and>
      (\<not> lf_res_added_node q \<longrightarrow> resize_needed (lf_res_globals q) = resize_needed g) \<and>
      (table_ok_lf u \<and> k \<noteq> INVALID_KEY \<and> v \<noteq> INVALID_VALUE \<and>
       length (lf_buckets u ! bucket_of_lf u k) < 2 ^ 31 \<and> resize_needed g = 0 \<longrightarrow>
         (resize_needed (lf_res_globals q) = 1 \<longleftrightarrow>
            k \<notin> item_key ` set (lf_buckets u ! bucket_of_lf u k) \<and> resize_enabled g \<noteq> 0 \<and>
            8 \<le> length (lf_buckets u ! bucket_of_lf u k))))"
proof -
  have striped: "resize_needed (res_globals r) =
        (if res_added_node r \<and> resize_enabled g \<noteq> 0 \<and> MAX_CHAIN_SIZE \<le>s res_depth r \<and>
            resize_needed g = 0
         then 1 else resize_needed g) \<and>
      (\<not> res_added_node r \<longrightarrow> resize_needed (res_globals r) = resize_needed g) \<and>
      (table_ok t \<and> k \<noteq> INVALID_KEY \<and> v \<noteq> INVALID_VALUE \<and>
       length (buckets t ! bucket_of t k) < 2 ^ 31 \<and> resize_needed g = 0 \<longrightarrow>
         (resize_needed (res_globals r) = 1 \<longleftrightarrow>
            k \<notin> item_key ` set (buckets t ! bucket_of t k) \<and> resize_enabled g \<noteq> 0 \<and>
            8 \<le> length (buckets t ! bucket_of t k)))"
    if r: "insert_run g t k v = Inr r" for t r
  proof (intro conjI impI)
    show "resize_needed (res_globals r) =
        (if res_added_node r \<and> resize_enabled g \<noteq> 0 \<and> MAX_CHAIN_SIZE \<le>s res_depth r \<and>
            resize_needed g = 0
         then 1 else resize_needed g)"
      using insert_run_resize_needed [OF r] by simp
    show "resize_needed (res_globals r) = resize_needed g" if "\<not> res_added_node r"
      using insert_run_resize_needed [OF r] that by simp
    show "resize_needed (res_globals r) = 1 \<longleftrightarrow>
            k \<notin> item_key ` set (buckets t ! bucket_of t k) \<and> resize_enabled g \<noteq> 0 \<and>
            8 \<le> length (buckets t ! bucket_of t k)"
      if "table_ok t \<and> k \<noteq> INVALID_KEY \<and> v \<noteq> INVALID_VALUE \<and>
          length (buckets t ! bucket_of t k) < 2 ^ 31 \<and> resize_needed g = 0"
      using that insert_run_trigger [OF _ _ _ r] by blast
  qed
  show ?thesis
  proof (intro conjI)
    show "insert_run g t k v = Inr r \<longrightarrow>
      resize_needed (res_globals r) =
        (if res_added_node r \<and> resize_enabled g \<noteq> 0 \<and> MAX_CHAIN_SIZE \<le>s res_depth r \<and>
            resize_needed g = 0
         then 1 else resize_needed g) \<and>
      (\<not> res_added_node r \<longrightarrow> resize_needed (res_globals r) = resize_needed g) \<and>
      (table_ok t \<and> k \<noteq> INVALID_KEY \<and> v \<noteq> INVALID_VALUE \<and>
       length (buckets t ! bucket_of t k) < 2 ^ 31 \<and> resize_needed g = 0 \<longrightarrow>
         (resize_needed (res_globals r) = 1 \<longleftrightarrow>
            k \<notin> item_key ` set (buckets t ! bucket_of t k) \<and> resize_enabled g \<noteq> 0 \<and>
            8 \<le> length (buckets t ! bucket_of t k)))"
      using striped by blast
    show "insert_run_lf g u k v = Inr q \<longrightarrow>
      resize_needed (lf_res_globals q) =
        (if lf_res_added_node q \<and> resize_enabled g \<noteq> 0 \<and> MAX_CHAIN_SIZE \<le>s lf_res_depth q \<and>
            resize_needed g = 0
         then 1 else resize_needed g) \<and>
      (\<not> lf_res_added_node q \<longrightarrow> resize_needed (lf_res_globals q) = resize_needed g) \<and>
      (table_ok_lf u \<and> k \<noteq> INVALID_KEY \<and> v \<noteq> INVALID_VALUE \<and>
       length (lf_buckets u ! bucket_of_lf u k) < 2 ^ 31 \<and> resize_needed g = 0 \<longrightarrow>
         (resize_needed (lf_res_globals q) = 1 \<longleftrightarrow>
            k \<notin> item_key ` set (lf_buckets u ! bucket_of_lf u k) \<and> resize_enabled g \<noteq> 0 \<and>
            8 \<le> length (lf_buckets u ! bucket_of_lf u k)))"
    proof
      assume "insert_run_lf g u k v = Inr q"
      from insert_run_lf_Inr [OF this] obtain r where
        r: "insert_run g (striped_of u) k v = Inr r" and q: "q = res_lf_of r" by blast
      from striped [OF r] show "resize_needed (lf_res_globals q) =
        (if lf_res_added_node q \<and> resize_enabled g \<noteq> 0 \<and> MAX_CHAIN_SIZE \<le>s lf_res_depth q \<and>
            resize_needed g = 0
         then 1 else resize_needed g) \<and>
        (\<not> lf_res_added_node q \<longrightarrow> resize_needed (lf_res_globals q) = resize_needed g) \<and>
        (table_ok_lf u \<and> k \<noteq> INVALID_KEY \<and> v \<noteq> INVALID_VALUE \<and>
         length (lf_buckets u ! bucket_of_lf u k) < 2 ^ 31 \<and> resize_needed g = 0 \<longrightarrow>
           (resize_needed (lf_res_globals q) = 1 \<longleftrightarrow>
              k \<notin> item_key ` set (lf_buckets u ! bucket_of_lf u k) \<and> resize_enabled g \<noteq> 0 \<and>
              8 \<le> length (lf_buckets u ! bucket_of_lf u k)))"
        unfolding q res_lf_of_simps striped_of_simps table_ok_lf_striped .
    qed
  qed
qed


theorem resize_trigger_witness:
  "\<exists>r r' q q'.
     insert_run \<lparr>resize_enabled = 1, speed_test = 0, resize_needed = 0\<rparr>
       \<lparr>buckets = [[\<lparr>item_key = 8, item_value = 80\<rparr>, \<lparr>item_key = 7, item_value = 70\<rparr>,
                 \<lparr>item_key = 6, item_value = 60\<rparr>, \<lparr>item_key = 5, item_value = 50\<rparr>,
                 \<lparr>item_key = 4, item_value = 40\<rparr>, \<lparr>item_key = 3, item_value = 30\<rparr>,
                 \<lparr>item_key = 2, item_value = 20\<rparr>, \<lparr>item_key = 1, item_value = 10\<rparr>]],
       num_buckets = 1, num_locks = 1, num_items = 8\<rparr> 9 90 = Inr r \<and>
     resize_needed (res_globals r) = 1 \<and>
     insert_run \<lparr>resize_enabled = 1, speed_test = 0, resize_needed = 0\<rparr>
       \<lparr>buckets = [[\<lparr>item_key = 8, item_value = 80\<rparr>, \<lparr>item_key = 7, item_value = 70\<rparr>,
                 \<lparr>item_key = 6, item_value = 60\<rparr>, \<lparr>item_key = 5, item_value = 50\<rparr>,
                 \<lparr>item_key = 4, item_value = 40\<rparr>, \<lparr>item_key = 3, item_value = 30\<rparr>,
                 \<lparr>item_key = 2, item_value = 20\<rparr>, \<lparr>item_key = 1, item_value = 10\<rparr>]],
       num_buckets = 1, num_locks = 1, num_items = 8\<rparr> 3 33 = Inr r' \<and>
     resize_needed (res_globals r') = 0 \<and>
     insert_run_lf \<lparr>resize_enabled = 1, speed_test = 0, resize_needed = 0\<rparr>
       \<lparr>lf_buckets = [[\<lparr>item_key = 8, item_value = 80\<rparr>, \<lparr>item_key = 7, item_value = 70\<rparr>,
                 \<lparr>item_key = 6, item_value = 60\<rparr>, \<lparr>item_key = 5, item_value = 50\<rparr>,
                 \<lparr>item_key = 4, item_value = 40\<rparr>, \<lparr>item_key = 3, item_value = 30\<rparr>,
                 \<lparr>item_key = 2, item_value = 20\<rparr>, \<lparr>item_key = 1, item_value = 10\<rparr>]],
       lf_num_buckets = 1, lf_num_items = 8\<rparr> 9 90 = Inr q \<and>
     resize_needed (lf_res_globals q) = 1 \<and>
     insert_run_lf \<lparr>resize_enabled = 1, speed_test = 0, resize_needed = 0\<rparr>
       \<lparr>lf_buckets = [[\<lparr>item_key = 8, item_value = 80\<rparr>, \<lparr>item_key = 7, item_value = 70\<rparr>,
                 \<lparr>item_key = 6, item_value = 60\<rparr>, \<lparr>item_key = 5, item_value = 50\<rparr>,
                 \<lparr>item_key = 4, item_value = 40\<rparr>, \<lparr>item_key = 3, item_value = 30\<rparr>,
                 \<lparr>item_key = 2, item_value = 20\<rparr>, \<lparr>item_key = 1, item_value = 10\<rparr>]],
       lf_num_buckets = 1, lf_num_items = 8\<rparr> 3 33 = Inr q' \<and>
     resize_needed (lf_res_globals q') = 0"
proof -
  let ?G = "\<lparr>resize_enabled = 1, speed_test = 0, resize_needed = 0\<rparr>"
  let ?T = "\<lparr>buckets = [[\<lparr>item_key = 8, item_value = 80\<rparr>, \<lparr>item_key = 7, item_value = 70\<rparr>,
                 \<lparr>item_key = 6, item_value = 60\<rparr>, \<lparr>item_key = 5, item_value = 50\<rparr>,
                 \<lparr>item_key = 4, item_value = 40\<rparr>, \<lparr>item_key = 3, item_value = 30\<rparr>,
                 \<lparr>item_key = 2, item_value = 20\<rparr>, \<lparr>item_key = 1, item_value = 10\<rparr>]],
       num_buckets = 1, num_locks = 1, num_items = 8\<rparr>"
  let ?U = "\<lparr>lf_buckets = [[\<lparr>item_key = 8, item_value = 80\<rparr>, \<lparr>item_key = 7, item_value = 70\<rparr>,
                 \<lparr>item_key = 6, item_value = 60\<rparr>, \<lparr>item_key = 5, item_value = 50\<rparr>,
                 \<lparr>item_key = 4, item_value = 40\<rparr>, \<lparr>item_key = 3, item_value = 30\<rparr>,
                 \<lparr>item_key = 2, item_value = 20\<rparr>, \<lparr>item_key = 1, item_value = 10\<rparr>]],
       lf_num_buckets = 1, lf_num_items = 8\<rparr>"
  have ok: "table_ok ?T" by (simp add: table_ok_def)
  have oku: "table_ok_lf ?U" by (simp add: table_ok_lf_def)
  have u: "striped_of ?U = ?T" by (simp add: striped_of_def)
  have kv: "(9 :: u64) \<noteq> INVALID_KEY" "(90 :: u64) \<noteq> INVALID_VALUE"
    "(3 :: u64) \<noteq> INVALID_KEY" "(33 :: u64) \<noteq> INVALID_VALUE"
    by (simp_all add: INVALID_KEY_def INVALID_VALUE_def)
  from insert_run_table [OF ok kv(1,2), of ?G] obtain r where r: "insert_run ?G ?T 9 90 = Inr r"
    by blast
  from insert_run_table [OF ok kv(3,4), of ?G] obtain r' where r': "insert_run ?G ?T 3 33 = Inr r'"
    by blast
  from r u have q: "insert_run_lf ?G ?U 9 90 = Inr (res_lf_of r)"
    by (simp only: insert_run_lf_striped sum.case)
  from r' u have q': "insert_run_lf ?G ?U 3 33 = Inr (res_lf_of r')"
    by (simp only: insert_run_lf_striped sum.case)
  have len: "length (buckets ?T ! bucket_of ?T k) < 2 ^ 31"
    "length (lf_buckets ?U ! bucket_of_lf ?U k) < 2 ^ 31" for k
    by (simp_all add: bucket_of_def bucket_of_lf_def)
  from resize_trigger [of ?G ?T 9 90 r ?U "res_lf_of r"] r q ok oku kv len
  have a: "resize_needed (res_globals r) = 1" "resize_needed (lf_res_globals (res_lf_of r)) = 1"
    by (simp_all add: bucket_of_def bucket_of_lf_def)
  from resize_trigger [of ?G ?T 3 33 r' ?U "res_lf_of r'"] r' q' ok oku kv len
  have b: "resize_needed (res_globals r') \<noteq> 1" "resize_needed (lf_res_globals (res_lf_of r')) \<noteq> 1"
    by (simp_all add: bucket_of_def bucket_of_lf_def)
  from resize_trigger [of ?G ?T 3 33 r' ?U "res_lf_of r'"] r' q' b
  have c: "resize_needed (res_globals r') = 0" "resize_needed (lf_res_globals (res_lf_of r')) = 0"
    by (simp_all split: if_splits)
  from r r' q q' a c show ?thesis by blast
qed

section \<open>The item counter\<close>






section \<open>Structure of the resized table\<close>

lemma resize_fields:
  assumes "resize g t = Inr (g', t')"
  shows "num_buckets t' = num_buckets t * 2 \<and> length (buckets t') = unat (num_buckets t * 2) \<and>
         num_locks t' = num_locks t * 2 \<and> num_items t' = num_items t \<and>
         g' = g\<lparr>resize_needed := 0\<rparr>"
proof -
  let ?n = "(create_table (num_buckets t * 2) (num_locks t * 2))\<lparr>num_items := num_items t\<rparr>"
  from assms have r: "rehash_buckets t ?n [0..<unat (num_buckets t)] = Inr t'"
    and g': "g' = g\<lparr>resize_needed := 0\<rparr>"
    by (auto simp: resize_def Let_def split: sum.splits)
  from rehash_buckets_fields [OF r] g' show ?thesis by (simp add: create_table_def)
qed

lemma unat_double:
  "unat (x :: size_t) < 2 ^ 63 \<Longrightarrow> unat (x * 2) = 2 * unat x"
  by (simp add: unat_word_ariths)

lemma resize_fields_lf:
  assumes "resize_lf g u = Inr (g', u')"
  shows "lf_num_buckets u' = lf_num_buckets u * 2 \<and>
         length (lf_buckets u') = unat (lf_num_buckets u * 2) \<and>
         lf_num_items u' = lf_num_items u \<and> g' = g\<lparr>resize_needed := 0\<rparr>"
proof -
  from assms obtain t' where r: "resize g (striped_of u) = Inr (g', t')" and u': "u' = lf_of t'"
    by (auto simp: resize_lf_striped split: sum.splits)
  from resize_fields [OF r] u' show ?thesis by (simp add: lf_of_def striped_of_def)
qed

text \<open>
  C6. Resize structure. A resize that returns gives a table whose \<open>num_buckets\<close> is
  \<open>2 * num_buckets\<close> of the old table in \<open>size_t\<close> arithmetic, with exactly that many
  buckets, in the striped variant with \<open>2 * num_locks\<close> locks, and with \<open>num_items\<close>
  copied. Below \<open>2^63\<close> the product does not wrap: the bucket count doubles as a number
  and stays at least 1. A table with a bucket per \<open>num_buckets\<close> whose doubled sizes are
  not zero is resized without error.
\<close>

theorem resize_structure:
  "(resize g t = Inr (g', t') \<longrightarrow>
      num_buckets t' = num_buckets t * 2 \<and> length (buckets t') = unat (num_buckets t * 2) \<and>
      num_locks t' = num_locks t * 2 \<and> num_items t' = num_items t \<and>
      (unat (num_buckets t) < 2 ^ 63 \<longrightarrow> unat (num_buckets t') = 2 * unat (num_buckets t)) \<and>
      (1 \<le> unat (num_buckets t) \<and> unat (num_buckets t) < 2 ^ 63 \<longrightarrow> 1 \<le> unat (num_buckets t')) \<and>
      (unat (num_locks t) < 2 ^ 63 \<longrightarrow> unat (num_locks t') = 2 * unat (num_locks t))) \<and>
   (resize_lf g u = Inr (g', u') \<longrightarrow>
      lf_num_buckets u' = lf_num_buckets u * 2 \<and>
      length (lf_buckets u') = unat (lf_num_buckets u * 2) \<and>
      lf_num_items u' = lf_num_items u \<and>
      (unat (lf_num_buckets u) < 2 ^ 63 \<longrightarrow> unat (lf_num_buckets u') = 2 * unat (lf_num_buckets u)) \<and>
      (1 \<le> unat (lf_num_buckets u) \<and> unat (lf_num_buckets u) < 2 ^ 63 \<longrightarrow>
         1 \<le> unat (lf_num_buckets u'))) \<and>
   (table_ok t \<and> num_buckets t * 2 \<noteq> 0 \<and> num_locks t * 2 \<noteq> 0 \<longrightarrow>
      (\<exists>t'. resize g t = Inr (g\<lparr>resize_needed := 0\<rparr>, t')))"
proof (intro conjI impI)
  assume "table_ok t \<and> num_buckets t * 2 \<noteq> 0 \<and> num_locks t * 2 \<noteq> 0"
  then have "table_ok t" "num_buckets t * 2 \<noteq> 0" "num_locks t * 2 \<noteq> 0" by simp_all
  from resize_ok [OF this, of g] show "\<exists>t'. resize g t = Inr (g\<lparr>resize_needed := 0\<rparr>, t')"
    by blast
qed (auto dest!: resize_fields resize_fields_lf simp: unat_double)

theorem resize_structure_witness:
  "\<exists>t' u'.
     resize \<lparr>resize_enabled = 1, speed_test = 0, resize_needed = 1\<rparr>
       \<lparr>buckets = [[\<lparr>item_key = 9, item_value = 5\<rparr>, \<lparr>item_key = 7, item_value = 1\<rparr>], []],
        num_buckets = 2, num_locks = 1, num_items = 2\<rparr>
       = Inr (\<lparr>resize_enabled = 1, speed_test = 0, resize_needed = 0\<rparr>, t') \<and>
     num_buckets t' = 4 \<and> length (buckets t') = 4 \<and> num_locks t' = 2 \<and> num_items t' = 2 \<and>
     resize_lf \<lparr>resize_enabled = 1, speed_test = 0, resize_needed = 1\<rparr>
       \<lparr>lf_buckets = [[\<lparr>item_key = 9, item_value = 5\<rparr>, \<lparr>item_key = 7, item_value = 1\<rparr>], []],
        lf_num_buckets = 2, lf_num_items = 2\<rparr>
       = Inr (\<lparr>resize_enabled = 1, speed_test = 0, resize_needed = 0\<rparr>, u') \<and>
     lf_num_buckets u' = 4 \<and> length (lf_buckets u') = 4 \<and> lf_num_items u' = 2"
proof -
  let ?G = "\<lparr>resize_enabled = 1, speed_test = 0, resize_needed = 1\<rparr>"
  let ?G' = "\<lparr>resize_enabled = 1, speed_test = 0, resize_needed = 0\<rparr>"
  let ?T = "\<lparr>buckets = [[\<lparr>item_key = 9, item_value = 5\<rparr>, \<lparr>item_key = 7, item_value = 1\<rparr>], []],
            num_buckets = 2, num_locks = 1, num_items = 2\<rparr>"
  let ?T' = "\<lparr>buckets = [[\<lparr>item_key = 7, item_value = 1\<rparr>], [], [\<lparr>item_key = 9, item_value = 5\<rparr>], []],
           num_buckets = 4, num_locks = 2, num_items = 2\<rparr>"
  let ?U = "\<lparr>lf_buckets = [[\<lparr>item_key = 9, item_value = 5\<rparr>, \<lparr>item_key = 7, item_value = 1\<rparr>], []],
            lf_num_buckets = 2, lf_num_items = 2\<rparr>"
  let ?U' = "\<lparr>lf_buckets = [[\<lparr>item_key = 7, item_value = 1\<rparr>], [], [\<lparr>item_key = 9, item_value = 5\<rparr>], []],
           lf_num_buckets = 4, lf_num_items = 2\<rparr>"
  have rT: "resize ?G ?T = Inr (?G', ?T')"
    by code_simp
  have rU: "resize_lf ?G ?U = Inr (?G', ?U')"
    by code_simp
  from resize_structure [of ?G ?T ?G' ?T' ?U ?U'] rT rU
  have "num_buckets ?T' = num_buckets ?T * 2 \<and> length (buckets ?T') = unat (num_buckets ?T * 2) \<and>
        num_locks ?T' = num_locks ?T * 2 \<and> num_items ?T' = num_items ?T \<and>
        lf_num_buckets ?U' = lf_num_buckets ?U * 2 \<and>
        length (lf_buckets ?U') = unat (lf_num_buckets ?U * 2) \<and>
        lf_num_items ?U' = lf_num_items ?U"
    by blast
  with rT rU show ?thesis by simp
qed

section \<open>The hash function\<close>

lemma hash1_unat:
  assumes "B \<noteq> 0"
  shows "\<exists>b. hash1 k B = Inr b \<and> hash1_lf k B = Inr b \<and>
           unat b = ((unat k * 37 + 13) mod 2 ^ 64) mod unat B \<and> unat b < unat B"
proof -
  have "unat (k * 37 + 13) = (unat k * 37 + 13) mod 2 ^ 64"
    by (simp add: unat_word_ariths mod_simps)
  then have "unat ((k * 37 + 13) mod B) = ((unat k * 37 + 13) mod 2 ^ 64) mod unat B"
    by (simp add: unat_mod_distrib)
  moreover have "unat ((k * 37 + 13) mod B) < unat B"
    using assms hash1_bound [of k B] by (simp add: hash1_Inr)
  ultimately show ?thesis using assms by (simp add: hash1_Inr hash1_lf_eq)
qed

text \<open>
  C7, as amended. For every 64-bit key \<open>k\<close> and every \<open>num_buckets\<close> \<open>B\<close> of at least 1,
  both variants compute the same bucket index, it is below \<open>B\<close>, and it is
  \<open>(((k * 37) + 13) mod 2^64) mod B\<close>: the sum wraps around at 64 bits before the
  remainder is taken. It equals \<open>((k * 37) + 13) mod B\<close> over the integers where the sum
  stays below \<open>2^64\<close>, and for every key where \<open>B\<close> divides \<open>2^64\<close> (the default 64 and
  all its doublings).
\<close>

theorem hash1_wraps:
  "B \<noteq> 0 \<longrightarrow>
     (\<exists>b. hash1 k B = Inr b \<and> hash1_lf k B = Inr b \<and> unat b < unat B \<and>
          unat b = ((unat k * 37 + 13) mod 2 ^ 64) mod unat B \<and>
          (unat k * 37 + 13 < 2 ^ 64 \<longrightarrow> unat b = (unat k * 37 + 13) mod unat B) \<and>
          (unat B dvd 2 ^ 64 \<longrightarrow> unat b = (unat k * 37 + 13) mod unat B))"
proof
  assume "B \<noteq> 0"
  from hash1_unat [OF this, of k] obtain b where b: "hash1 k B = Inr b" "hash1_lf k B = Inr b"
    "unat b = ((unat k * 37 + 13) mod 2 ^ 64) mod unat B" "unat b < unat B" by blast
  have "unat b = (unat k * 37 + 13) mod unat B" if "unat k * 37 + 13 < 2 ^ 64"
    using b(3) that by simp
  moreover have "unat b = (unat k * 37 + 13) mod unat B" if "unat B dvd 2 ^ 64"
    using b(3) that by (simp add: mod_mod_cancel)
  ultimately show "\<exists>b. hash1 k B = Inr b \<and> hash1_lf k B = Inr b \<and> unat b < unat B \<and>
          unat b = ((unat k * 37 + 13) mod 2 ^ 64) mod unat B \<and>
          (unat k * 37 + 13 < 2 ^ 64 \<longrightarrow> unat b = (unat k * 37 + 13) mod unat B) \<and>
          (unat B dvd 2 ^ 64 \<longrightarrow> unat b = (unat k * 37 + 13) mod unat B)"
    using b by blast
qed

theorem hash1_wraps_witness:
  "hash1 7 64 = Inr 16 \<and> hash1_lf 7 64 = Inr 16 \<and>
   unat (16 :: size_t) = (unat (7 :: u64) * 37 + 13) mod unat (64 :: size_t) \<and>
   hash1 1152921504606846976 64 = Inr 13 \<and>
   unat (13 :: size_t) = (unat (1152921504606846976 :: u64) * 37 + 13) mod unat (64 :: size_t)"
proof -
  have nz: "(64 :: size_t) \<noteq> 0" by simp
  have small: "unat (7 :: u64) * 37 + 13 < 2 ^ 64" by simp
  have dv: "unat (64 :: size_t) dvd 2 ^ 64" by simp
  from hash1_wraps [of 64 7] nz small obtain b where
    "hash1 7 64 = Inr b" "hash1_lf 7 64 = Inr b"
    "unat b = (unat (7 :: u64) * 37 + 13) mod unat (64 :: size_t)" by blast
  moreover have "hash1 7 64 = Inr 16" by (simp add: hash1_def)
  moreover from hash1_wraps [of 64 1152921504606846976] nz dv obtain c where
    "hash1 1152921504606846976 64 = Inr c"
    "unat c = (unat (1152921504606846976 :: u64) * 37 + 13) mod unat (64 :: size_t)" by blast
  moreover have "hash1 1152921504606846976 64 = Inr 13" by (simp add: hash1_def)
  ultimately show ?thesis by simp
qed

text \<open>
  The claim as stated, with the formula over the integers, fails where the sum
  overflows and \<open>B\<close> is not a power of two: for key \<open>2^60\<close> and 24 buckets the code
  gives bucket 21, the formula 5.
\<close>

theorem hash1_overflow_counterexample:
  "hash1 1152921504606846976 24 = Inr 21 \<and> hash1_lf 1152921504606846976 24 = Inr 21 \<and>
   (unat (1152921504606846976 :: u64) * 37 + 13) mod unat (24 :: size_t) = 5"
  by (simp add: hash1_def hash1_lf_def)

section \<open>The bucket-count option\<close>

lemma main_opt_b:
  "main_opt (Opt_b n) (cfg, g) =
     Inr (cfg\<lparr>initial_buckets := (if n = 0 then INIT_NUM_BUCKETS else n)\<rparr>, g)"
  by (simp add: Let_def)

lemma main_table_b:
  "main_table [Opt_b n] =
     Inr (snd main_defaults,
          main_create_table
            ((fst main_defaults)\<lparr>initial_buckets := (if n = 0 then INIT_NUM_BUCKETS else n)\<rparr>))"
  by (simp add: main_table_def main_defaults_def Let_def)

text \<open>
  C8. The \<open>-b\<close> branch resets the bucket count to the default 64 only for \<open>N = 0\<close>
  (\<open>main_opt_b\<close>); a negative \<open>N\<close> is kept. For \<open>-b -5\<close> the count stays \<open>-5\<close>, and
  the table is created with \<open>num_buckets\<close> \<open>2^64 - 5\<close> and no lock.
\<close>

theorem opt_b_negative_kept:
  "main_getopt_loop [Opt_b (- 5)] main_defaults =
     Inr ((fst main_defaults)\<lparr>initial_buckets := - 5\<rparr>, snd main_defaults) \<and>
   main_getopt_loop [Opt_b 0] main_defaults =
     Inr ((fst main_defaults)\<lparr>initial_buckets := INIT_NUM_BUCKETS\<rparr>, snd main_defaults) \<and>
   num_buckets (main_create_table ((fst main_defaults)\<lparr>initial_buckets := - 5\<rparr>)) =
     18446744073709551611 \<and>
   num_locks (main_create_table ((fst main_defaults)\<lparr>initial_buckets := - 5\<rparr>)) = 0 \<and>
   INIT_NUM_BUCKETS = 64"
  by (simp add: main_defaults_def main_create_table_def create_table_fields
      INIT_NUM_BUCKETS_def INIT_NUM_LOCKS_RATIO_def signed_divide_int_def)

section \<open>The dispatch phase of the driver\<close>

declare dispatch_loop.simps [simp del]

lemma spawn_task_fields:
  "ds_end_of_file (spawn_task buffer s) = ds_end_of_file s"
  "ds_count (spawn_task buffer s) = ds_count s"
  "ds_temp_resize_needed (spawn_task buffer s) = ds_temp_resize_needed s"
  "ds_zero_read (spawn_task buffer s) = ds_zero_read s"
  "length (ds_tasks (spawn_task buffer s)) = Suc (length (ds_tasks s))"
  "ds_pos (spawn_task buffer s) = ds_pos s + valid_bytes buffer"
  by (simp_all add: spawn_task_def)

lemma fread_chunk_empty:
  "fread_chunk content pos = [] \<longleftrightarrow> length content \<le> pos"
  by (auto simp: fread_chunk_def FILE_CHUNK_SIZE_def)

text \<open>One turn of the loop from a state in which \<open>end_of_file\<close> is 0.\<close>

lemma dispatch_loop_step:
  assumes "ds_end_of_file s = 0"
  shows "dispatch_loop content obs s =
     (if length content \<le> ds_pos s then s\<lparr>ds_end_of_file := 1, ds_zero_read := True\<rparr>
      else if ds_count s + 1 \<ge> MAX_TASK_POOL - 1
      then (spawn_task (fread_chunk content (ds_pos s)) s)\<lparr>ds_count := ds_count s + 1\<rparr>
      else if obs (ds_count s + 1) \<noteq> 0
      then (spawn_task (fread_chunk content (ds_pos s)) s)
             \<lparr>ds_count := ds_count s + 1, ds_temp_resize_needed := obs (ds_count s + 1)\<rparr>
      else dispatch_loop content obs
             ((spawn_task (fread_chunk content (ds_pos s)) s)
                \<lparr>ds_count := ds_count s + 1, ds_temp_resize_needed := obs (ds_count s + 1)\<rparr>))"
  using assms fread_chunk_empty [of content "ds_pos s"]
  by (subst dispatch_loop.simps) (simp add: Let_def spawn_task_fields)

lemma dispatch_loop_exit:
  assumes "nat (MAX_TASK_POOL - 1 - ds_count s) = n"
    and "ds_end_of_file s = 0" "ds_temp_resize_needed s = 0" "ds_count s < MAX_TASK_POOL - 1"
    and "\<not> ds_zero_read s" "int (length (ds_tasks s)) = ds_count s"
  shows "loop_exit content (dispatch_loop content obs s)"
  using assms
proof (induction n arbitrary: s rule: less_induct)
  case (less n)
  let ?s1 = "spawn_task (fread_chunk content (ds_pos s)) s"
  let ?s3 = "?s1\<lparr>ds_count := ds_count s + 1, ds_temp_resize_needed := obs (ds_count s + 1)\<rparr>"
  note step = dispatch_loop_step [OF less.prems(2), of content obs]
  consider (eof) "length content \<le> ds_pos s"
    | (full) "\<not> length content \<le> ds_pos s" "ds_count s + 1 \<ge> MAX_TASK_POOL - 1"
    | (flag) "\<not> length content \<le> ds_pos s" "\<not> ds_count s + 1 \<ge> MAX_TASK_POOL - 1"
        "obs (ds_count s + 1) \<noteq> 0"
    | (again) "\<not> length content \<le> ds_pos s" "\<not> ds_count s + 1 \<ge> MAX_TASK_POOL - 1"
        "obs (ds_count s + 1) = 0"
    by blast
  then show ?case
  proof cases
    case eof
    with less.prems show ?thesis by (simp add: step loop_exit_def)
  next
    case full
    with less.prems show ?thesis by (simp add: step loop_exit_def spawn_task_fields)
  next
    case flag
    with less.prems show ?thesis by (simp add: step loop_exit_def spawn_task_fields)
  next
    case again
    have m: "nat (MAX_TASK_POOL - 1 - ds_count ?s3) < n"
      using again(2) less.prems(1) by simp
    have "loop_exit content (dispatch_loop content obs ?s3)"
      using less.prems again
      by (intro less.IH [OF m refl]) (simp_all add: spawn_task_fields)
    with again show ?thesis by (simp add: step)
  qed
qed

lemma dispatch_phase_exit:
  "loop_exit content
     (dispatch_loop content obs
        \<lparr>ds_pos = pos, ds_end_of_file = 0, ds_count = 0, ds_temp_resize_needed = 0,
         ds_tasks = [], ds_zero_read = False\<rparr>)"
  by (rule dispatch_loop_exit [OF refl]) (simp_all add: MAX_TASK_POOL_def)

lemma dispatch_phase_result:
  "loop_exit content (dispatch_phase content obs pos 0)"
  using dispatch_phase_exit [of content obs pos]
  by (auto simp: dispatch_phase_def Let_def loop_exit_def split: if_splits)

lemma find_last_newline_replicate:
  "c \<noteq> CHR 0x0A \<Longrightarrow> i \<le> n \<Longrightarrow> find_last_newline (replicate n c) i = None"
  by (induction i) simp_all

lemma valid_bytes_replicate:
  "c \<noteq> CHR 0x0A \<Longrightarrow> valid_bytes (replicate n c) = n"
  by (simp add: valid_bytes_def find_last_newline_replicate)

lemma fread_chunk_replicate:
  "pos + FILE_CHUNK_SIZE \<le> n \<Longrightarrow>
   fread_chunk (replicate n c) pos = replicate FILE_CHUNK_SIZE c"
  by (simp add: fread_chunk_def min_def)

lemma full_pool_count:
  assumes "nat (MAX_TASK_POOL - 1 - ds_count s) = m"
    and "c \<noteq> CHR 0x0A" "ds_end_of_file s = 0" "0 \<le> ds_count s" "ds_count s < MAX_TASK_POOL - 1"
    and "ds_pos s + m * FILE_CHUNK_SIZE \<le> n"
  shows "ds_count (dispatch_loop (replicate n c) (\<lambda>_. 0) s) = MAX_TASK_POOL - 1"
  using assms
proof (induction m arbitrary: s rule: less_induct)
  case (less m)
  from less.prems(1,5) obtain m' where m: "m = Suc m'"
    by (cases m) simp_all
  with less.prems(6) have room: "ds_pos s + FILE_CHUNK_SIZE \<le> n"
    and rest: "ds_pos s + FILE_CHUNK_SIZE + m' * FILE_CHUNK_SIZE \<le> n"
    by simp_all
  have pos: "0 < FILE_CHUNK_SIZE" by (simp add: FILE_CHUNK_SIZE_def)
  with room have more: "\<not> length (replicate n c) \<le> ds_pos s" by simp
  let ?s1 = "spawn_task (fread_chunk (replicate n c) (ds_pos s)) s"
  let ?s3 = "?s1\<lparr>ds_count := ds_count s + 1, ds_temp_resize_needed := 0\<rparr>"
  note step = dispatch_loop_step [OF less.prems(3), of "replicate n c" "\<lambda>_. 0"]
  show ?case
  proof (cases "ds_count s + 1 \<ge> MAX_TASK_POOL - 1")
    case True
    with more less.prems(5) show ?thesis by (simp add: step spawn_task_fields)
  next
    case False
    have p3: "ds_pos ?s3 = ds_pos s + FILE_CHUNK_SIZE"
      using room less.prems(2)
      by (simp add: spawn_task_fields fread_chunk_replicate valid_bytes_replicate)
    have m3: "nat (MAX_TASK_POOL - 1 - ds_count ?s3) = m'"
      using less.prems(1) m by simp
    have "ds_count (dispatch_loop (replicate n c) (\<lambda>_. 0) ?s3) = MAX_TASK_POOL - 1"
      using less.prems False rest p3
      by (intro less.IH [OF _ m3]) (simp_all add: m spawn_task_fields)
    with more False show ?thesis by (simp add: step)
  qed
qed

lemma full_pool:
  assumes "c \<noteq> CHR 0x0A"
  shows "length (ds_tasks (dispatch_phase (replicate (255 * FILE_CHUNK_SIZE) c) (\<lambda>_. 0) 0 0)) = 255 \<and>
         \<not> ds_zero_read (dispatch_phase (replicate (255 * FILE_CHUNK_SIZE) c) (\<lambda>_. 0) 0 0)"
proof -
  let ?content = "replicate (255 * FILE_CHUNK_SIZE) c"
  let ?s0 = "\<lparr>ds_pos = 0, ds_end_of_file = 0, ds_count = 0, ds_temp_resize_needed = 0,
         ds_tasks = [], ds_zero_read = False\<rparr>"
  have cnt: "ds_count (dispatch_loop ?content (\<lambda>_. 0) ?s0) = MAX_TASK_POOL - 1"
    by (rule full_pool_count [OF refl assms]) (simp_all add: MAX_TASK_POOL_def)
  then have ph: "dispatch_phase ?content (\<lambda>_. 0) 0 0 = dispatch_loop ?content (\<lambda>_. 0) ?s0"
    by (simp add: dispatch_phase_def Let_def)
  from dispatch_phase_result [of ?content "\<lambda>_. 0" 0] cnt ph show ?thesis
    by (auto simp: loop_exit_def MAX_TASK_POOL_def split: if_splits)
qed

text \<open>
  C9, as amended. Started with \<open>end_of_file\<close> at 0, as the \<open>while\<close> guard has it, the
  dispatch phase leaves \<open>end_of_file\<close> at 1 exactly when an \<open>fread\<close> returned zero bytes,
  and at 0 otherwise; a read returns zero bytes only with the whole input consumed. When
  exactly \<open>MAX_TASK_POOL - 1\<close> tasks were dispatched, \<open>end_of_file\<close> is 0.
\<close>

theorem dispatch_end_of_file:
  "(ds_end_of_file (dispatch_phase content obs pos 0) = 1 \<longleftrightarrow>
      ds_zero_read (dispatch_phase content obs pos 0)) \<and>
   (ds_end_of_file (dispatch_phase content obs pos 0) = 0 \<longleftrightarrow>
      \<not> ds_zero_read (dispatch_phase content obs pos 0)) \<and>
   (ds_zero_read (dispatch_phase content obs pos 0) \<longrightarrow>
      length content \<le> ds_pos (dispatch_phase content obs pos 0)) \<and>
   (length (ds_tasks (dispatch_phase content obs pos 0)) = nat (MAX_TASK_POOL - 1) \<longrightarrow>
      ds_end_of_file (dispatch_phase content obs pos 0) = 0 \<and>
      \<not> ds_zero_read (dispatch_phase content obs pos 0))"
  using dispatch_phase_result [of content obs pos]
  by (auto simp: loop_exit_def MAX_TASK_POOL_def split: if_splits)

theorem dispatch_end_of_file_witness:
  "ds_zero_read (dispatch_phase ''I 7 1'' (\<lambda>_. 0) 0 0) \<and>
   ds_end_of_file (dispatch_phase ''I 7 1'' (\<lambda>_. 0) 0 0) = 1 \<and>
   length ''I 7 1'' \<le> ds_pos (dispatch_phase ''I 7 1'' (\<lambda>_. 0) 0 0) \<and>
   length (ds_tasks (dispatch_phase (replicate (255 * FILE_CHUNK_SIZE) (CHR ''x'')) (\<lambda>_. 0) 0 0))
     = nat (MAX_TASK_POOL - 1) \<and>
   ds_end_of_file (dispatch_phase (replicate (255 * FILE_CHUNK_SIZE) (CHR ''x'')) (\<lambda>_. 0) 0 0) = 0"
proof -
  have z: "ds_zero_read (dispatch_phase ''I 7 1'' (\<lambda>_. 0) 0 0)"
    by (simp add: dispatch_phase_def dispatch_loop_step fread_chunk_def spawn_task_def
        valid_bytes_def FILE_CHUNK_SIZE_def MAX_TASK_POOL_def Let_def)
  have x: "CHR ''x'' \<noteq> CHR 0x0A" by simp
  from full_pool [OF x]
  have f: "length (ds_tasks (dispatch_phase (replicate (255 * FILE_CHUNK_SIZE) (CHR ''x'')) (\<lambda>_. 0) 0 0))
     = nat (MAX_TASK_POOL - 1)"
    by (simp add: MAX_TASK_POOL_def)
  from dispatch_end_of_file [of "''I 7 1''" "\<lambda>_. 0" 0] z
    dispatch_end_of_file [of "replicate (255 * FILE_CHUNK_SIZE) (CHR ''x'')" "\<lambda>_. 0" 0] f
  show ?thesis by blast
qed

text \<open>
  The claim as stated fails: on no input, for no values read from \<open>resize_needed\<close>,
  does the dispatch phase dispatch exactly \<open>MAX_TASK_POOL - 1\<close> tasks without a read of
  zero bytes and leave \<open>end_of_file\<close> at 1.
\<close>

theorem no_premature_end_of_file:
  "\<not> (\<exists>content obs pos.
         length (ds_tasks (dispatch_phase content obs pos 0)) = nat (MAX_TASK_POOL - 1) \<and>
         \<not> ds_zero_read (dispatch_phase content obs pos 0) \<and>
         ds_end_of_file (dispatch_phase content obs pos 0) = 1)"
proof
  assume "\<exists>content obs pos.
         length (ds_tasks (dispatch_phase content obs pos 0)) = nat (MAX_TASK_POOL - 1) \<and>
         \<not> ds_zero_read (dispatch_phase content obs pos 0) \<and>
         ds_end_of_file (dispatch_phase content obs pos 0) = 1"
  then obtain content obs pos where
    a: "\<not> ds_zero_read (dispatch_phase content obs pos 0)"
      "ds_end_of_file (dispatch_phase content obs pos 0) = 1" by blast
  from dispatch_phase_result [of content obs pos] a show False
    by (simp add: loop_exit_def)
qed

section \<open>Lock striping with no lock\<close>

lemma get_lock_idx_cases:
  "(num_locks t = 0 \<longrightarrow> get_lock_idx t b = Inl LockModZero) \<and>
   (num_locks t \<noteq> 0 \<longrightarrow> (\<exists>i. get_lock_idx t b = Inr i \<and> unat i < unat (num_locks t)))"
  by (auto simp: get_lock_idx_def unat_mod_distrib unat_gt_0)

lemma zero_locks_fail:
  assumes nl: "num_locks t = 0" and nb: "num_buckets t \<noteq> 0"
  shows "(k \<noteq> INVALID_KEY \<longrightarrow> lookup t k = Inl LockModZero) \<and>
         (k \<noteq> INVALID_KEY \<and> v \<noteq> INVALID_VALUE \<longrightarrow>
            insert_run g t k v = Inl LockModZero \<and> insert_tbl g t k v = Inl LockModZero \<and>
            resize_insert t k v = Inl LockModZero)"
  using assms
  by (simp add: lookup_def insert_run_def insert_tbl_def resize_insert_def hash1_Inr
      get_lock_idx_def)

lemma small_bucket_counts:
  assumes "1 \<le> n" "n \<le> 7"
  shows "n sdiv INIT_NUM_LOCKS_RATIO = 0" "(word_of_int n :: size_t) \<noteq> 0"
proof -
  from assms have "n = 1 \<or> n = 2 \<or> n = 3 \<or> n = 4 \<or> n = 5 \<or> n = 6 \<or> n = 7" by arith
  then show "n sdiv INIT_NUM_LOCKS_RATIO = 0" "(word_of_int n :: size_t) \<noteq> 0"
    by (auto simp: INIT_NUM_LOCKS_RATIO_def signed_divide_int_def)
qed

lemma get_lock_idx_mod:
  "num_locks t \<noteq> 0 \<Longrightarrow> get_lock_idx t b = Inr (b mod num_locks t)"
  by (simp add: get_lock_idx_def)

lemma lock_idx_bound:
  "num_locks (t :: ChainedHashTable) \<noteq> 0 \<Longrightarrow> unat (b mod num_locks t) < unat (num_locks t)"
  using get_lock_idx_cases [of t b] by (auto simp: get_lock_idx_mod)

lemma main_create_table_fields:
  "num_buckets (main_create_table cfg) = word_of_int (initial_buckets cfg)"
  "num_locks (main_create_table cfg) = word_of_int (initial_buckets cfg sdiv 8)"
  by (simp_all add: main_create_table_def create_table_fields INIT_NUM_LOCKS_RATIO_def)

text \<open>
  C10. Lock striping needs at least one lock. \<open>get_lock_idx\<close> returns
  \<open>bucket_index mod num_locks\<close>: with \<open>num_locks\<close> at least 1 that is an index below
  \<open>num_locks\<close>, with \<open>num_locks = 0\<close> it is a remainder by zero, an error of the model.
  \<open>main\<close> creates the table with \<open>initial_buckets\<close> buckets and
  \<open>initial_buckets / 8\<close> locks (C's truncating division, both converted to \<open>size_t\<close>). So
  for \<open>-b n\<close> with \<open>n\<close> from 1 to 7 the table has \<open>n\<close> buckets and \<open>num_locks = 0\<close>, and
  on that table every lookup of a key other than \<open>INVALID_KEY\<close> and every insert of
  non-sentinel arguments stops at the remainder by zero in \<open>get_lock_idx\<close>. (Sentinel
  arguments return before the lock index is computed.)
\<close>

theorem small_table_has_no_lock:
  "(num_locks t = 0 \<longrightarrow> get_lock_idx t b = Inl LockModZero) \<and>
   (num_locks t \<noteq> 0 \<longrightarrow>
      get_lock_idx t b = Inr (b mod num_locks t) \<and>
      unat (b mod num_locks t) < unat (num_locks t)) \<and>
   (num_locks t \<noteq> 0 \<longrightarrow> (\<exists>i. get_lock_idx t b = Inr i \<and> unat i < unat (num_locks t))) \<and>
   num_buckets (main_create_table cfg) = word_of_int (initial_buckets cfg) \<and>
   num_locks (main_create_table cfg) = word_of_int (initial_buckets cfg sdiv 8) \<and>
   INIT_NUM_LOCKS_RATIO = 8 \<and>
   (n \<noteq> 0 \<longrightarrow>
      (\<exists>g0 t0. main_table [Opt_b n] = Inr (g0, t0) \<and>
         num_buckets t0 = word_of_int n \<and> num_locks t0 = word_of_int (n sdiv 8))) \<and>
   (1 \<le> n \<and> n \<le> 7 \<longrightarrow>
      (\<exists>g0 t0. main_table [Opt_b n] = Inr (g0, t0) \<and>
         num_buckets t0 = word_of_int n \<and> num_buckets t0 \<noteq> 0 \<and>
         num_locks t0 = word_of_int (n sdiv 8) \<and> n sdiv 8 = 0 \<and> num_locks t0 = 0 \<and>
         get_lock_idx t0 b = Inl LockModZero \<and>
         (k \<noteq> INVALID_KEY \<longrightarrow> lookup t0 k = Inl LockModZero) \<and>
         (k \<noteq> INVALID_KEY \<and> v \<noteq> INVALID_VALUE \<longrightarrow>
            insert_run g t0 k v = Inl LockModZero \<and> insert_tbl g t0 k v = Inl LockModZero)))"
proof (intro conjI impI)
  assume n: "1 \<le> n \<and> n \<le> 7"
  then have n0: "n \<noteq> 0" by simp
  let ?t0 = "main_create_table ((fst main_defaults)\<lparr>initial_buckets := n\<rparr>)"
  from n have sm: "n sdiv INIT_NUM_LOCKS_RATIO = 0" "(word_of_int n :: size_t) \<noteq> 0"
    by (simp_all add: small_bucket_counts)
  then have d: "n sdiv 8 = 0" by (simp add: INIT_NUM_LOCKS_RATIO_def)
  have m: "main_table [Opt_b n] = Inr (snd main_defaults, ?t0)"
    using n0 by (simp add: main_table_b)
  have f: "num_buckets ?t0 = word_of_int n" "num_locks ?t0 = word_of_int (n sdiv 8)"
    by (simp_all add: main_create_table_fields)
  with d have z: "num_locks ?t0 = 0" by simp
  from f sm have nb: "num_buckets ?t0 \<noteq> 0" by simp
  from z have gl: "get_lock_idx ?t0 b = Inl LockModZero" by (simp add: get_lock_idx_def)
  from zero_locks_fail [OF z nb, of k v g] m f d z nb gl
  show "\<exists>g0 t0. main_table [Opt_b n] = Inr (g0, t0) \<and>
         num_buckets t0 = word_of_int n \<and> num_buckets t0 \<noteq> 0 \<and>
         num_locks t0 = word_of_int (n sdiv 8) \<and> n sdiv 8 = 0 \<and> num_locks t0 = 0 \<and>
         get_lock_idx t0 b = Inl LockModZero \<and>
         (k \<noteq> INVALID_KEY \<longrightarrow> lookup t0 k = Inl LockModZero) \<and>
         (k \<noteq> INVALID_KEY \<and> v \<noteq> INVALID_VALUE \<longrightarrow>
            insert_run g t0 k v = Inl LockModZero \<and> insert_tbl g t0 k v = Inl LockModZero)"
    by blast
next
  assume n0: "n \<noteq> 0"
  let ?t0 = "main_create_table ((fst main_defaults)\<lparr>initial_buckets := n\<rparr>)"
  have "main_table [Opt_b n] = Inr (snd main_defaults, ?t0)"
    using n0 by (simp add: main_table_b)
  moreover have "num_buckets ?t0 = word_of_int n" "num_locks ?t0 = word_of_int (n sdiv 8)"
    by (simp_all add: main_create_table_fields)
  ultimately show "\<exists>g0 t0. main_table [Opt_b n] = Inr (g0, t0) \<and>
         num_buckets t0 = word_of_int n \<and> num_locks t0 = word_of_int (n sdiv 8)"
    by blast
qed (simp_all add: get_lock_idx_cases get_lock_idx_mod lock_idx_bound main_create_table_fields
      INIT_NUM_LOCKS_RATIO_def)

theorem small_table_has_no_lock_witness:
  "(\<exists>g0 t0. main_table [Opt_b 3] = Inr (g0, t0) \<and> num_buckets t0 = 3 \<and> num_locks t0 = 0 \<and>
     get_lock_idx t0 2 = Inl LockModZero \<and>
     lookup t0 5 = Inl LockModZero \<and>
     insert_tbl \<lparr>resize_enabled = 1, speed_test = 0, resize_needed = 0\<rparr> t0 5 50 = Inl LockModZero) \<and>
   (\<exists>g1 t1. main_table [Opt_b 24] = Inr (g1, t1) \<and> num_buckets t1 = 24 \<and> num_locks t1 = 3 \<and>
     get_lock_idx t1 21 = Inr 0 \<and> get_lock_idx t1 5 = Inr 2) \<and>
   get_lock_idx (create_table 64 8) 21 = Inr 5"
proof -
  let ?G = "\<lparr>resize_enabled = 1, speed_test = 0, resize_needed = 0\<rparr>"
  have kv: "(5 :: u64) \<noteq> INVALID_KEY" "(50 :: u64) \<noteq> INVALID_VALUE"
    by (simp_all add: INVALID_KEY_def INVALID_VALUE_def)
  have n: "(1 :: int) \<le> 3 \<and> (3 :: int) \<le> 7" by simp
  from small_table_has_no_lock [of _ 2 _ 3 5 50 ?G] n kv obtain g0 t0 where
    a: "main_table [Opt_b 3] = Inr (g0, t0)" "num_buckets t0 = word_of_int 3" "num_locks t0 = 0"
      "get_lock_idx t0 2 = Inl LockModZero"
      "lookup t0 5 = Inl LockModZero" "insert_tbl ?G t0 5 50 = Inl LockModZero"
    by blast
  have n24: "(24 :: int) \<noteq> 0" by simp
  from small_table_has_no_lock [of _ _ _ 24 5 50 ?G] n24 obtain g1 t1 where
    b: "main_table [Opt_b 24] = Inr (g1, t1)" "num_buckets t1 = word_of_int 24"
      "num_locks t1 = word_of_int (24 sdiv 8)"
    by blast
  from b(3) have l3: "num_locks t1 = 3" by (simp add: signed_divide_int_def)
  then have nz: "num_locks t1 \<noteq> 0" by simp
  from small_table_has_no_lock [of t1 21 _ 3 5 50 ?G] nz l3
  have c1: "get_lock_idx t1 21 = Inr 0" by simp
  from small_table_has_no_lock [of t1 5 _ 3 5 50 ?G] nz l3
  have c2: "get_lock_idx t1 5 = Inr 2" by simp
  have "num_locks (create_table 64 8) \<noteq> 0" by (simp add: create_table_fields)
  with small_table_has_no_lock [of "create_table 64 8" 21 _ 3 5 50 ?G]
  have c: "get_lock_idx (create_table 64 8) 21 = Inr 5"
    by (simp add: create_table_fields)
  from a b(1,2) l3 c1 c2 c show ?thesis by auto
qed

end
